theory Spec2Isabelle
  imports Complex_Main "HOL-Library.AList" "HOL-Library.Multiset"
begin

section \<open>The evacuation model of mesacat (src/mesacat/model.py)\<close>

text \<open>
  The module defines one class, \<^verbatim>\<open>EvacuationModel\<close>, with a constructor and the
  methods \<^verbatim>\<open>step\<close>, \<^verbatim>\<open>run\<close> and \<^verbatim>\<open>create_movie\<close>. The embedding below follows
  the constructor, \<^verbatim>\<open>step\<close> and \<^verbatim>\<open>run\<close> line by line. The classes of mesa that hold the
  state of a run (\<^verbatim>\<open>NetworkGrid\<close>, \<^verbatim>\<open>RandomActivation\<close>, \<^verbatim>\<open>DataCollector\<close>) and the spatial
  join of geopandas are modelled by definitions that follow their documented behaviour.
  The computations whose results the module only passes on (loading the graph, the
  geometric predicate, the nearest-neighbour query, the random draws, and the route logic
  of the sibling module \<^verbatim>\<open>agent\<close>) are the fields of the record \<open>env\<close>; a theorem
  holds for whatever these functions compute, unless it states what it assumes of them.
  Raised exceptions are values of the type \<open>error\<close>.
\<close>

subsection \<open>Data\<close>

datatype error = OsmError | AttributeError | IndexError | KeyError | ValueError | RouteError

text \<open>A geometry of a GeoDataFrame row: a point, or a polygon given by its ring.\<close>

datatype geom = Point real real | Polygon "(real \<times> real) list"

text \<open>
  A GeoDataFrame as far as the module reads it: its \<^verbatim>\<open>crs\<close> attribute and its geometry
  column, one entry per row.
\<close>

record geodataframe =
  crs :: string
  geometry :: "geom list"

text \<open>
  The caller's GeoDataFrames are Python objects that the constructor receives by
  reference and assigns to; the store maps each reference to the object's current value.
\<close>

type_synonym ref = nat
type_synonym store = "ref \<Rightarrow> geodataframe"

text \<open>
  The road network as \<^verbatim>\<open>osmnx.graph_from_file\<close> and \<^verbatim>\<open>graph_to_gdfs\<close> deliver it: the
  CRS of the node frame, the node rows (node id, x, y) in the order of \<^verbatim>\<open>self.nodes\<close>, and
  the edges (from, to, key) of the multigraph.
\<close>

record network =
  nodes_crs :: string
  nodes_rows :: "(int \<times> real \<times> real) list"
  edges_rows :: "(int \<times> int \<times> nat) list"

definition nodes_index :: "network \<Rightarrow> int list" where
  "nodes_index net = map fst (nodes_rows net)"

definition nodes_xy :: "network \<Rightarrow> (real \<times> real) list" where
  "nodes_xy net = map snd (nodes_rows net)"

text \<open>
  An agent: its \<^verbatim>\<open>unique_id\<close>, its \<^verbatim>\<open>pos\<close> (a node id, set by \<^verbatim>\<open>place_agent\<close>) and the
  private navigation state \<open>nav\<close> that only the module \<^verbatim>\<open>agent\<close> reads and writes.
\<close>

record 'v agent =
  unique_id :: nat
  pos :: int
  nav :: 'v

text \<open>The \<^verbatim>\<open>RandomActivation\<close> scheduler: the registered agents in insertion order, and \<^verbatim>\<open>steps\<close>.\<close>

record 'v RandomActivation =
  agents :: "'v agent list"
  steps :: nat

text \<open>
  The \<^verbatim>\<open>DataCollector\<close>: the list of the model reporter \<^verbatim>\<open>evacuated\<close>, and the agent
  records, a dictionary from the value of \<^verbatim>\<open>schedule.steps\<close> at collection time to the rows
  (step, agent id, position) collected then, in insertion order.
\<close>

record DataCollector =
  model_vars :: "nat list"
  agent_records :: "(nat \<times> (nat \<times> nat \<times> int) list) list"

text \<open>The \<^verbatim>\<open>NetworkGrid\<close>: for each node of G the list \<^verbatim>\<open>G.nodes[n]['agent']\<close> of its occupants.\<close>

type_synonym grid_t = "int \<rightharpoonup> nat list"

record ('r, 'v) model =
  seed :: "int option"
  hazard :: ref
  agent_locations :: ref
  schedule :: "'v RandomActivation"
  G :: network
  grid :: grid_t
  target_node :: int
  random :: 'r
  data_collector :: DataCollector

text \<open>
  The functions the module calls and does not define. \<open>graph_from_file\<close> is None where
  osmnx raises; \<open>intersects\<close> is the predicate of the spatial join; \<open>query\<close> is the
  nearest-neighbour query of the k-d tree built over the node coordinates, giving an index
  into them; \<open>random_choice\<close> and \<open>random_shuffle\<close> draw from the model's random source
  and return its next state; \<open>new_agent\<close>, \<open>update_route\<close> and \<open>agent_step\<close> are the
  constructor and the two methods of \<^verbatim>\<open>agent.EvacuationAgent\<close>.
\<close>

record ('r, 'v) env =
  graph_from_file :: "string \<Rightarrow> network option"
  intersects :: "geom \<Rightarrow> geom \<Rightarrow> bool"
  query :: "(real \<times> real) list \<Rightarrow> real \<times> real \<Rightarrow> nat"
  random_choice :: "'r \<Rightarrow> int list \<Rightarrow> int \<times> 'r"
  random_shuffle :: "'r \<Rightarrow> nat list \<Rightarrow> nat list \<times> 'r"
  new_agent :: "nat \<Rightarrow> 'v"
  update_route :: "network \<Rightarrow> int \<Rightarrow> 'v agent \<Rightarrow> error + 'v"
  agent_step :: "network \<Rightarrow> int \<Rightarrow> 'v agent \<Rightarrow> error + int \<times> 'v"

subsection \<open>The constructor\<close>

text \<open>
  \<^verbatim>\<open>sjoin(left, right)\<close> with its defaults is an inner join on the predicate
  \<^verbatim>\<open>intersects\<close>: one row for every pair of a left row and a right row whose geometries
  intersect, carrying the left row's index and geometry and the right row's index.
\<close>

definition sjoin :: "(geom \<Rightarrow> geom \<Rightarrow> bool) \<Rightarrow> geom list \<Rightarrow> geom list \<Rightarrow> (nat \<times> geom \<times> nat) list" where
  "sjoin isect left right =
     concat (map (\<lambda>(i, l). map (\<lambda>(j, r). (i, l, j)) (filter (\<lambda>(j, r). isect l r) (enumerate 0 right)))
                 (enumerate 0 left))"

text \<open>\<^verbatim>\<open>.geometry.x\<close> and \<^verbatim>\<open>.geometry.y\<close>: defined for points only.\<close>

fun geometry_xy :: "geom list \<Rightarrow> error + (real \<times> real) list" where
  "geometry_xy [] = Inr []"
| "geometry_xy (Point x y # gs) =
     (case geometry_xy gs of Inl e \<Rightarrow> Inl e | Inr ps \<Rightarrow> Inr ((x, y) # ps))"
| "geometry_xy (Polygon ring # gs) = Inl AttributeError"

text \<open>\<^verbatim>\<open>NetworkGrid(G)\<close> gives every node an empty occupant list.\<close>

definition NetworkGrid :: "network \<Rightarrow> grid_t" where
  "NetworkGrid net = map_of (map (\<lambda>n. (n, [])) (nodes_index net))"

definition place_agent :: "grid_t \<Rightarrow> nat \<Rightarrow> int \<Rightarrow> error + grid_t" where
  "place_agent gr a node_id =
     (case gr node_id of
        None \<Rightarrow> Inl KeyError
      | Some occ \<Rightarrow> Inr (gr(node_id \<mapsto> occ @ [a])))"

text \<open>
  Line 67: the supplied target, or \<^verbatim>\<open>self.random.choice(self.nodes.index)\<close>, which raises
  IndexError on an empty sequence.
\<close>

definition choose_target ::
  "('r, 'v) env \<Rightarrow> 'r \<Rightarrow> network \<Rightarrow> int option \<Rightarrow> error + int \<times> 'r" where
  "choose_target env r net target =
     (case target of
        Some t \<Rightarrow> Inr (t, r)
      | None \<Rightarrow> if nodes_index net = [] then Inl IndexError
                else Inr (random_choice env r (nodes_index net)))"

text \<open>
  Lines 69 to 73, the loop over \<^verbatim>\<open>enumerate(node_idx)\<close>: create agent \<open>i\<close>, add it to the
  schedule, place it on node \<^verbatim>\<open>self.nodes.index[idx]\<close>, and let it compute its route.
\<close>

fun create_agents ::
  "('r, 'v) env \<Rightarrow> network \<Rightarrow> int \<Rightarrow> (nat \<times> nat) list \<Rightarrow> 'v agent list \<Rightarrow> grid_t
     \<Rightarrow> error + 'v agent list \<times> grid_t" where
  "create_agents env net tgt [] ags gr = Inr (ags, gr)"
| "create_agents env net tgt ((i, idx) # rest) ags gr =
     (if idx < length (nodes_index net) then
        (case place_agent gr i (nodes_index net ! idx) of
           Inl e \<Rightarrow> Inl e
         | Inr gr' \<Rightarrow>
             (let a = \<lparr>unique_id = i, pos = nodes_index net ! idx, nav = new_agent env i\<rparr> in
              case update_route env net tgt a of
                Inl e \<Rightarrow> Inl e
              | Inr v \<Rightarrow> create_agents env net tgt rest (ags @ [a\<lparr>nav := v\<rparr>]) gr'))
      else Inl IndexError)"

text \<open>Lines 59 and 60: the assignments to the \<^verbatim>\<open>crs\<close> attribute of the caller's objects.\<close>

definition set_crs :: "store \<Rightarrow> ref \<Rightarrow> string \<Rightarrow> store" where
  "set_crs st r c = st(r := (st r)\<lparr>crs := c\<rparr>)"

text \<open>Line 62: the join of the candidate locations with the hazard, read from the store.\<close>

definition agents_in_hazard_zone ::
  "('r, 'v) env \<Rightarrow> store \<Rightarrow> ref \<Rightarrow> ref \<Rightarrow> (nat \<times> geom \<times> nat) list" where
  "agents_in_hazard_zone env st hz al = sjoin (intersects env) (geometry (st al)) (geometry (st hz))"

text \<open>
  Lines 63 to 77: what the constructor does with the joined rows. It queries the tree for
  the node nearest to each row's point, fixes the target, creates the agents and the
  empty data collector. \<open>r0\<close> is the random source \<^verbatim>\<open>self.random\<close> that the base class
  of mesa has installed before the constructor body runs; the body itself only stores
  \<open>seed\<close> in \<^verbatim>\<open>self._seed\<close>.
\<close>

definition populate ::
  "('r, 'v) env \<Rightarrow> 'r \<Rightarrow> network \<Rightarrow> ref \<Rightarrow> ref \<Rightarrow> int option \<Rightarrow> int option
     \<Rightarrow> (nat \<times> geom \<times> nat) list \<Rightarrow> error + ('r, 'v) model" where
  "populate env r0 net hz al target sd joined =
     (case geometry_xy (map (\<lambda>(i, g, j). g) joined) of
        Inl e \<Rightarrow> Inl e
      | Inr pts \<Rightarrow>
          (case choose_target env r0 net target of
             Inl e \<Rightarrow> Inl e
           | Inr (tgt, r1) \<Rightarrow>
               (case create_agents env net tgt (enumerate 0 (map (query env (nodes_xy net)) pts)) []
                       (NetworkGrid net) of
                  Inl e \<Rightarrow> Inl e
                | Inr (ags, gr) \<Rightarrow>
                    Inr \<lparr>seed = sd, hazard = hz, agent_locations = al,
                         schedule = \<lparr>agents = ags, steps = 0\<rparr>,
                         G = net, grid = gr, target_node = tgt, random = r1,
                         data_collector = \<lparr>model_vars = [], agent_records = []\<rparr>\<rparr>)))"

text \<open>
  \<^verbatim>\<open>EvacuationModel.__init__\<close>: load the graph, overwrite the \<^verbatim>\<open>crs\<close> of the two frames,
  join them, and populate the model. The result is the new model or the exception, and
  the store as the constructor leaves it in either case.
\<close>

definition init ::
  "('r, 'v) env \<Rightarrow> 'r \<Rightarrow> string \<Rightarrow> ref \<Rightarrow> ref \<Rightarrow> int option \<Rightarrow> int option \<Rightarrow> store
     \<Rightarrow> (error + ('r, 'v) model) \<times> store" where
  "init env r0 osm_file hz al target sd st =
     (case graph_from_file env osm_file of
        None \<Rightarrow> (Inl OsmError, st)
      | Some net \<Rightarrow>
          (let st' = set_crs (set_crs st hz (nodes_crs net)) al (nodes_crs net) in
           (populate env r0 net hz al target sd (agents_in_hazard_zone env st' hz al), st')))"

subsection \<open>step and run\<close>

text \<open>
  The agent reporter \<^verbatim>\<open>{'position': 'pos'}\<close> of line 77: one row (step, agent id, position)
  per scheduled agent, in the order of the schedule.
\<close>

definition record_agents :: "('r, 'v) model \<Rightarrow> (nat \<times> nat \<times> int) list" where
  "record_agents m = map (\<lambda>a. (steps (schedule m), unique_id a, pos a)) (agents (schedule m))"

text \<open>
  \<^verbatim>\<open>DataCollector.collect\<close>: the model reporter \<^verbatim>\<open>evacuated\<close> of line 76 reads
  \<^verbatim>\<open>G.nodes[target_node]['agent']\<close> (KeyError when the target is no node), and the agent
  rows are stored under the key \<^verbatim>\<open>schedule.steps\<close>.
\<close>

definition collect :: "('r, 'v) model \<Rightarrow> error + ('r, 'v) model" where
  "collect m =
     (case grid m (target_node m) of
        None \<Rightarrow> Inl KeyError
      | Some occ \<Rightarrow>
          Inr (m\<lparr>data_collector :=
                 \<lparr>model_vars = model_vars (data_collector m) @ [length occ],
                  agent_records =
                    AList.update (steps (schedule m)) (record_agents m)
                      (agent_records (data_collector m))\<rparr>\<rparr>))"

text \<open>\<^verbatim>\<open>NetworkGrid.move_agent\<close>: remove the agent from its node's list, append it to the new one's.\<close>

definition move_agent :: "grid_t \<Rightarrow> nat \<Rightarrow> int \<Rightarrow> int \<Rightarrow> error + grid_t" where
  "move_agent gr a old new =
     (case gr old of
        None \<Rightarrow> Inl KeyError
      | Some occ \<Rightarrow>
          if a \<in> set occ then place_agent (gr(old \<mapsto> remove1 a occ)) a new
          else Inl ValueError)"

text \<open>
  Modelled from the spec: the method \<^verbatim>\<open>step\<close> of \<^verbatim>\<open>agent.EvacuationAgent\<close> is missing from the
  sources. By section 4.4 of the specification it advances this one agent, reading and
  updating its private navigation state, and updates its \<^verbatim>\<open>pos\<close> to the new node if it
  moved; the occupant lists of the grid follow the move.
\<close>

definition activate :: "('r, 'v) env \<Rightarrow> ('r, 'v) model \<Rightarrow> nat \<Rightarrow> error + ('r, 'v) model" where
  "activate env m key =
     (case find (\<lambda>a. unique_id a = key) (agents (schedule m)) of
        None \<Rightarrow> Inl KeyError
      | Some a \<Rightarrow>
          (case agent_step env (G m) (target_node m) a of
             Inl e \<Rightarrow> Inl e
           | Inr (p, v) \<Rightarrow>
               (case (if p = pos a then Inr (grid m) else move_agent (grid m) key (pos a) p) of
                  Inl e \<Rightarrow> Inl e
                | Inr gr \<Rightarrow>
                    Inr (m\<lparr>grid := gr,
                           schedule := (schedule m)\<lparr>agents :=
                             map (\<lambda>b. if unique_id b = key then b\<lparr>pos := p, nav := v\<rparr> else b)
                                 (agents (schedule m))\<rparr>\<rparr>))))"

fun activate_all :: "('r, 'v) env \<Rightarrow> nat list \<Rightarrow> ('r, 'v) model \<Rightarrow> error + ('r, 'v) model" where
  "activate_all env [] m = Inr m"
| "activate_all env (key # keys) m =
     (case activate env m key of Inl e \<Rightarrow> Inl e | Inr m' \<Rightarrow> activate_all env keys m')"

text \<open>
  \<^verbatim>\<open>RandomActivation.step\<close>: shuffle the agent keys with the model's random source, call
  \<^verbatim>\<open>step\<close> on each agent in that order, then increment \<^verbatim>\<open>steps\<close>.
\<close>

definition schedule_step :: "('r, 'v) env \<Rightarrow> ('r, 'v) model \<Rightarrow> error + ('r, 'v) model" where
  "schedule_step env m =
     (let (agent_keys, r) = random_shuffle env (random m) (map unique_id (agents (schedule m))) in
      case activate_all env agent_keys (m\<lparr>random := r\<rparr>) of
        Inl e \<Rightarrow> Inl e
      | Inr m' \<Rightarrow> Inr (m'\<lparr>schedule := (schedule m')\<lparr>steps := Suc (steps (schedule m'))\<rparr>\<rparr>))"

text \<open>\<^verbatim>\<open>EvacuationModel.step\<close>, lines 79 to 82.\<close>

definition step :: "('r, 'v) env \<Rightarrow> ('r, 'v) model \<Rightarrow> error + ('r, 'v) model" where
  "step env m = (case collect m of Inl e \<Rightarrow> Inl e | Inr m' \<Rightarrow> schedule_step env m')"

text \<open>The loop \<^verbatim>\<open>for _ in range(steps): self.step()\<close>, by the number of iterations.\<close>

fun step_loop :: "('r, 'v) env \<Rightarrow> nat \<Rightarrow> ('r, 'v) model \<Rightarrow> error + ('r, 'v) model" where
  "step_loop env 0 m = Inr m"
| "step_loop env (Suc n) m =
     (case step env m of Inl e \<Rightarrow> Inl e | Inr m' \<Rightarrow> step_loop env n m')"

text \<open>\<^verbatim>\<open>get_agent_vars_dataframe\<close>: the rows of all records, indexed by (step, agent id).\<close>

definition get_agent_vars_dataframe :: "DataCollector \<Rightarrow> (nat \<times> nat \<times> int) list" where
  "get_agent_vars_dataframe dc = concat (map snd (agent_records dc))"

text \<open>
  \<^verbatim>\<open>EvacuationModel.run\<close>, lines 84 to 95. \<^verbatim>\<open>range(steps)\<close> is empty for a negative
  argument, hence \<open>nat steps\<close> iterations. The result is the returned frame and the model
  as the call leaves it.
\<close>

definition run ::
  "('r, 'v) env \<Rightarrow> int \<Rightarrow> ('r, 'v) model \<Rightarrow> error + (nat \<times> nat \<times> int) list \<times> ('r, 'v) model" where
  "run env n m =
     (case step_loop env (nat n) m of
        Inl e \<Rightarrow> Inl e
      | Inr m' \<Rightarrow> Inr (get_agent_vars_dataframe (data_collector m'), m'))"

subsection \<open>One activation of one agent, and the occupancy invariant\<close>

text \<open>
  What one activation does to the agent it activates: the agent with the position and
  navigation state that \<open>agent_step\<close> returned. The \<open>t\<close>-fold iterate is the agent
  after exactly \<open>t\<close> activations.
\<close>

definition advance :: "('r, 'v) env \<Rightarrow> network \<Rightarrow> int \<Rightarrow> 'v agent \<Rightarrow> 'v agent" where
  "advance env net tgt a =
     (case agent_step env net tgt a of Inl e \<Rightarrow> a | Inr (p, v) \<Rightarrow> a\<lparr>pos := p, nav := v\<rparr>)"

text \<open>
  The state that construction establishes and every step keeps: the grid has an occupant
  list for exactly the nodes of the graph, the agent ids are distinct, and every agent is
  in the occupant list of the node it stands on.
\<close>

definition occupies :: "grid_t \<Rightarrow> 'v agent \<Rightarrow> bool" where
  "occupies gr a = (case gr (pos a) of None \<Rightarrow> False | Some occ \<Rightarrow> unique_id a \<in> set occ)"

definition placed :: "('r, 'v) model \<Rightarrow> bool" where
  "placed m \<longleftrightarrow>
     dom (grid m) = set (nodes_index (G m)) \<and>
     distinct (map unique_id (agents (schedule m))) \<and>
     list_all (occupies (grid m)) (agents (schedule m))"

text \<open>
  Modelled from the spec: what section 4.4 of the specification requires of the missing
  method \<^verbatim>\<open>step\<close> of \<^verbatim>\<open>agent.EvacuationAgent\<close>, for the agents that satisfy a property
  \<open>P\<close> of their own choosing: activated on a node of the graph it raises nothing, its
  result is a node of the graph, and the agent satisfies \<open>P\<close> again.
\<close>

definition step_contract ::
  "('r, 'v) env \<Rightarrow> network \<Rightarrow> int \<Rightarrow> ('v agent \<Rightarrow> bool) \<Rightarrow> bool" where
  "step_contract env net tgt P \<longleftrightarrow>
     (\<forall>a. P a \<and> pos a \<in> set (nodes_index net) \<longrightarrow>
        (\<exists>p v. agent_step env net tgt a = Inr (p, v) \<and> p \<in> set (nodes_index net) \<and>
               P (a\<lparr>pos := p, nav := v\<rparr>)))"

subsection \<open>The hazard filter in the words of the specification\<close>

text \<open>
  Section 4.2 of the specification describes the result of the hazard filter as the
  subset of the candidates whose point intersects some hazard polygon. This definition
  follows those words; it is compared with the join that the constructor computes.
\<close>

definition hazard_filter :: "(geom \<Rightarrow> geom \<Rightarrow> bool) \<Rightarrow> geom list \<Rightarrow> geom list \<Rightarrow> geom list" where
  "hazard_filter isect candidates hz = filter (\<lambda>c. list_ex (isect c) hz) candidates"

subsection \<open>A concrete town\<close>

text \<open>
  A small instance on which the definitions are evaluated: four nodes A, B, C, D (ids 1
  to 4) on a line, rectangular hazard zones, a nearest-node query by squared Euclidean
  distance, a counter as random source, and an agent that walks along the line of nodes
  towards the target, one node per step.
\<close>

definition town :: network where
  "town = \<lparr>nodes_crs = ''epsg:4326'',
           nodes_rows = [(1, 0, 0), (2, 1, 0), (3, 5, 0), (4, 10, 0)],
           edges_rows = [(1, 2, 0), (2, 1, 0), (2, 3, 0), (3, 2, 0), (3, 4, 0), (4, 3, 0)]\<rparr>"

text \<open>A point intersects an axis-parallel rectangle iff it lies within the bounds of its corners.\<close>

fun rect_intersects :: "geom \<Rightarrow> geom \<Rightarrow> bool" where
  "rect_intersects (Point x y) (Polygon ring) =
     (list_ex (\<lambda>(a, b). a \<le> x) ring \<and> list_ex (\<lambda>(a, b). x \<le> a) ring \<and>
      list_ex (\<lambda>(a, b). b \<le> y) ring \<and> list_ex (\<lambda>(a, b). y \<le> b) ring)"
| "rect_intersects g h = False"

definition sqdist :: "real \<times> real \<Rightarrow> real \<times> real \<Rightarrow> real" where
  "sqdist p q = (fst p - fst q) * (fst p - fst q) + (snd p - snd q) * (snd p - snd q)"

definition nearest :: "(real \<times> real) list \<Rightarrow> real \<times> real \<Rightarrow> nat" where
  "nearest pts p =
     (case pts of
        [] \<Rightarrow> 0
      | q # qs \<Rightarrow>
          fst (fold (\<lambda>(i, c) (bi, bd). if sqdist p c < bd then (i, sqdist p c) else (bi, bd))
                    (enumerate 1 qs) (0, sqdist p q)))"

definition counter_choice :: "nat \<Rightarrow> int list \<Rightarrow> int \<times> nat" where
  "counter_choice r xs = (xs ! (r mod length xs), Suc r)"

definition counter_shuffle :: "nat \<Rightarrow> nat list \<Rightarrow> nat list \<times> nat" where
  "counter_shuffle r xs = (if even r then xs else rev xs, Suc r)"

fun index_of :: "int list \<Rightarrow> int \<Rightarrow> nat option" where
  "index_of [] x = None"
| "index_of (y # ys) x = (if y = x then Some 0 else map_option Suc (index_of ys x))"

definition line_route :: "int list \<Rightarrow> int \<Rightarrow> int \<Rightarrow> error + int list" where
  "line_route ids p t =
     (case index_of ids p of
        None \<Rightarrow> Inl RouteError
      | Some i \<Rightarrow>
          (case index_of ids t of
             None \<Rightarrow> Inl RouteError
           | Some j \<Rightarrow>
               Inr (if i \<le> j then take (j - i) (drop (Suc i) ids)
                    else rev (take (i - j) (drop j ids)))))"

definition walker_step :: "network \<Rightarrow> int \<Rightarrow> int list agent \<Rightarrow> error + int \<times> int list" where
  "walker_step net tgt a = (case nav a of [] \<Rightarrow> Inr (pos a, []) | n # rest \<Rightarrow> Inr (n, rest))"

definition town_env :: "(nat, int list) env" where
  "town_env =
     \<lparr>graph_from_file = (\<lambda>f. if f = ''town.osm'' then Some town else None),
      intersects = rect_intersects,
      query = nearest,
      random_choice = counter_choice,
      random_shuffle = counter_shuffle,
      new_agent = (\<lambda>i. []),
      update_route = (\<lambda>net tgt a. line_route (nodes_index net) (pos a) tgt),
      agent_step = walker_step\<rparr>"

text \<open>Stores with the hazard frame at reference 0 and the candidate locations at reference 1.\<close>

definition frames :: "geodataframe \<Rightarrow> geodataframe \<Rightarrow> store" where
  "frames hz al = (\<lambda>r. if r = 0 then hz else al)"

text \<open>The zone around A and B, and a second zone that overlaps it around B.\<close>

definition zone_ab :: geom where
  "zone_ab = Polygon [(-1, -1), (2, -1), (2, 1), (-1, 1)]"

definition zone_b :: geom where
  "zone_b = Polygon [(1/2, -1), (3, -1), (3, 1), (1/2, 1)]"

text \<open>Three candidates: two inside the zone around A and B, one outside near D.\<close>

definition three_candidates :: geodataframe where
  "three_candidates = \<lparr>crs = ''epsg:4326'', geometry = [Point 0 (1/2), Point 1 (1/2), Point 9 0]\<rparr>"

text \<open>The hazard frames and candidate frames of the scenarios evaluated below.\<close>

definition hazard_ab :: geodataframe where
  "hazard_ab = \<lparr>crs = ''epsg:4326'', geometry = [zone_ab]\<rparr>"

definition hazard_overlap :: geodataframe where
  "hazard_overlap = \<lparr>crs = ''epsg:4326'', geometry = [zone_ab, zone_b]\<rparr>"

definition hazard_bng :: geodataframe where
  "hazard_bng = \<lparr>crs = ''epsg:27700'', geometry = [zone_ab]\<rparr>"

definition far_candidate :: geodataframe where
  "far_candidate = \<lparr>crs = ''epsg:4326'', geometry = [Point 9 0]\<rparr>"

section \<open>Properties\<close>

subsection \<open>The spatial join and the agents the constructor creates\<close>

lemma geometry_set_crs: "geometry (set_crs st r c x) = geometry (st x)"
  by (simp add: set_crs_def)

lemma crs_set_crs: "crs (set_crs st r c x) = (if x = r then c else crs (st x))"
  by (simp add: set_crs_def)

lemma agents_in_hazard_zone_set_crs:
  "agents_in_hazard_zone env (set_crs st r c) hz al = agents_in_hazard_zone env st hz al"
  by (simp add: agents_in_hazard_zone_def geometry_set_crs)

lemma filter_enumerate_length:
  "length (filter (\<lambda>(j, r). P r) (enumerate n xs)) = length (filter P xs)"
  by (induction xs arbitrary: n) auto

lemma sjoin_rows_from:
  "map (\<lambda>(i, g, j). g)
     (concat (map (\<lambda>(i, l). map (\<lambda>(j, r). (i, l, j)) (filter (\<lambda>(j, r). isect l r) (enumerate 0 right)))
                  (enumerate n left))) =
   concat (map (\<lambda>c. replicate (length (filter (isect c) right)) c) left)"
proof (induction left arbitrary: n)
  case Nil
  show ?case by simp
next
  case (Cons c cs)
  have "map (\<lambda>(i, g, j). g) (map (\<lambda>(j, r). (n, c, j)) (filter (\<lambda>(j, r). isect c r) (enumerate 0 right))) =
        replicate (length (filter (isect c) right)) c"
    by (simp add: case_prod_unfold comp_def map_replicate_const filter_enumerate_length [unfolded case_prod_unfold])
  with Cons.IH show ?case by simp
qed

lemma sjoin_geometry:
  "map (\<lambda>(i, g, j). g) (sjoin isect left right) =
   concat (map (\<lambda>c. replicate (length (filter (isect c) right)) c) left)"
  unfolding sjoin_def by (rule sjoin_rows_from)

lemma sjoin_length:
  "length (sjoin isect left right) = (\<Sum>c\<leftarrow>left. length (filter (isect c) right))"
proof -
  have "length (sjoin isect left right) = length (map (\<lambda>(i, g, j). g) (sjoin isect left right))"
    by simp
  also have "\<dots> = (\<Sum>c\<leftarrow>left. length (filter (isect c) right))"
    unfolding sjoin_geometry by (simp add: length_concat comp_def)
  finally show ?thesis .
qed

lemma hazard_filter_length:
  "length (hazard_filter isect left right) = (\<Sum>c\<leftarrow>left. if list_ex (isect c) right then 1 else 0)"
  unfolding hazard_filter_def by (induction left) auto

lemma filter_empty_list_ex: "filter P xs = [] \<longleftrightarrow> \<not> list_ex P xs"
  by (induction xs) auto

lemma sjoin_empty_iff: "sjoin isect left right = [] \<longleftrightarrow> hazard_filter isect left right = []"
proof -
  have "sjoin isect left right = [] \<longleftrightarrow> map (\<lambda>(i, g, j). g) (sjoin isect left right) = []"
    by simp
  also have "\<dots> \<longleftrightarrow> (\<forall>c\<in>set left. filter (isect c) right = [])"
    unfolding sjoin_geometry by auto
  also have "\<dots> \<longleftrightarrow> hazard_filter isect left right = []"
    by (auto simp: hazard_filter_def filter_empty_conv filter_empty_list_ex list_ex_iff)
  finally show ?thesis .
qed

lemma sjoin_length_disjoint:
  assumes "\<forall>c\<in>set left. length (filter (isect c) right) \<le> 1"
  shows "length (sjoin isect left right) = length (hazard_filter isect left right)"
proof -
  have "length (filter (isect c) right) = (if list_ex (isect c) right then 1 else 0)"
    if "c \<in> set left" for c
  proof (cases "list_ex (isect c) right")
    case True
    then have "filter (isect c) right \<noteq> []" by (simp add: filter_empty_list_ex)
    then have "0 < length (filter (isect c) right)" by simp
    moreover from assms that have "length (filter (isect c) right) \<le> 1" by blast
    ultimately have "length (filter (isect c) right) = 1" by linarith
    with True show ?thesis by simp
  next
    case False
    then show ?thesis by (simp add: filter_empty_list_ex [symmetric])
  qed
  then show ?thesis
    unfolding sjoin_length hazard_filter_length
    by (intro arg_cong [where f = sum_list] map_cong) auto
qed

lemma geometry_xy_length: "geometry_xy gs = Inr ps \<Longrightarrow> length ps = length gs"
  by (induction gs arbitrary: ps rule: geometry_xy.induct) (auto split: sum.splits)

lemma create_agents_ids:
  "create_agents env net tgt xs ags gr = Inr (ags', gr') \<Longrightarrow>
   map unique_id ags' = map unique_id ags @ map fst xs"
  by (induction xs arbitrary: ags gr) (auto simp: Let_def split: if_splits sum.splits)

lemma fst_init:
  "graph_from_file env f = Some net \<Longrightarrow>
   fst (init env r0 f hz al tg sd st) =
     populate env r0 net hz al tg sd (agents_in_hazard_zone env st hz al)"
  by (simp add: init_def Let_def agents_in_hazard_zone_set_crs)

lemma snd_init:
  "graph_from_file env f = Some net \<Longrightarrow>
   snd (init env r0 f hz al tg sd st) = set_crs (set_crs st hz (nodes_crs net)) al (nodes_crs net)"
  by (simp add: init_def Let_def)

lemma init_graph:
  "fst (init env r0 f hz al tg sd st) = Inr m \<Longrightarrow> \<exists>net. graph_from_file env f = Some net"
  by (cases "graph_from_file env f") (simp_all add: init_def)

lemma populate_Inr:
  assumes "populate env r0 net hz al tg sd joined = Inr m"
  obtains pts tgt r1 ags gr where
    "geometry_xy (map (\<lambda>(i, g, j). g) joined) = Inr pts"
    "choose_target env r0 net tg = Inr (tgt, r1)"
    "create_agents env net tgt (enumerate 0 (map (query env (nodes_xy net)) pts)) []
       (NetworkGrid net) = Inr (ags, gr)"
    "m = \<lparr>seed = sd, hazard = hz, agent_locations = al,
          schedule = \<lparr>agents = ags, steps = 0\<rparr>,
          G = net, grid = gr, target_node = tgt, random = r1,
          data_collector = \<lparr>model_vars = [], agent_records = []\<rparr>\<rparr>"
  using assms unfolding populate_def
  by (auto split: sum.splits prod.splits)

lemma init_agent_ids:
  assumes "fst (init env r0 f hz al tg sd st) = Inr m"
  shows "map unique_id (agents (schedule m)) =
         [0..<length (sjoin (intersects env) (geometry (st al)) (geometry (st hz)))]"
proof -
  from init_graph [OF assms] obtain net where net: "graph_from_file env f = Some net" ..
  with assms have "populate env r0 net hz al tg sd (agents_in_hazard_zone env st hz al) = Inr m"
    by (simp add: fst_init)
  then obtain pts tgt r1 ags gr where
    pts: "geometry_xy (map (\<lambda>(i, g, j). g) (agents_in_hazard_zone env st hz al)) = Inr pts" and
    ca: "create_agents env net tgt (enumerate 0 (map (query env (nodes_xy net)) pts)) []
           (NetworkGrid net) = Inr (ags, gr)" and
    m: "agents (schedule m) = ags"
    by (rule populate_Inr) simp
  from geometry_xy_length [OF pts]
  have "length pts = length (sjoin (intersects env) (geometry (st al)) (geometry (st hz)))"
    by (simp add: agents_in_hazard_zone_def)
  with create_agents_ids [OF ca] m show ?thesis
    by simp
qed

lemma init_agent_count:
  assumes "fst (init env r0 f hz al tg sd st) = Inr m"
  shows "length (agents (schedule m)) =
         (\<Sum>c\<leftarrow>geometry (st al). length (filter (intersects env c) (geometry (st hz))))"
proof -
  have "length (agents (schedule m)) = length (map unique_id (agents (schedule m)))"
    by simp
  then show ?thesis
    unfolding init_agent_ids [OF assms] by (simp add: sjoin_length)
qed

lemma populate_fields:
  assumes "populate env r0 net hz al tg sd joined = Inr m"
  shows "G m = net" and "steps (schedule m) = 0"
    and "data_collector m = \<lparr>model_vars = [], agent_records = []\<rparr>"
    and "seed m = sd" and "hazard m = hz" and "agent_locations m = al"
  using assms by (auto elim!: populate_Inr)

lemma init_Inr_fields:
  assumes "fst (init env r0 f hz al tg sd st) = Inr m"
  shows "graph_from_file env f = Some (G m)"
    and "steps (schedule m) = 0"
    and "data_collector m = \<lparr>model_vars = [], agent_records = []\<rparr>"
proof -
  from init_graph [OF assms] obtain net where net: "graph_from_file env f = Some net" ..
  with assms have p: "populate env r0 net hz al tg sd (agents_in_hazard_zone env st hz al) = Inr m"
    by (simp add: fst_init)
  from populate_fields(1) [OF p] net show "graph_from_file env f = Some (G m)" by simp
  from populate_fields(2) [OF p] show "steps (schedule m) = 0" .
  from populate_fields(3) [OF p]
  show "data_collector m = \<lparr>model_vars = [], agent_records = []\<rparr>" .
qed

lemma place_agent_dom: "place_agent gr a n = Inr gr' \<Longrightarrow> dom gr' = dom gr"
  by (auto simp: place_agent_def split: option.splits if_splits)

lemma create_agents_dom:
  "create_agents env net tgt xs ags gr = Inr (ags', gr') \<Longrightarrow> dom gr' = dom gr"
proof (induction xs arbitrary: ags gr)
  case Nil
  then show ?case by simp
next
  case (Cons x xs)
  obtain i idx where x: "x = (i, idx)" by (cases x)
  from Cons.prems x obtain g1 v where
    p: "place_agent gr i (nodes_index net ! idx) = Inr g1" and
    r: "create_agents env net tgt xs
          (ags @ [\<lparr>unique_id = i, pos = nodes_index net ! idx, nav = v\<rparr>]) g1 = Inr (ags', gr')"
    by (auto simp: Let_def split: if_splits sum.splits)
  from Cons.IH [OF r] place_agent_dom [OF p] show ?case by simp
qed

lemma NetworkGrid_dom: "dom (NetworkGrid net) = set (nodes_index net)"
  by (simp add: NetworkGrid_def dom_map_of_conv_image_fst image_image)

lemma populate_grid_dom:
  assumes "populate env r0 net hz al tg sd joined = Inr m"
  shows "dom (grid m) = set (nodes_index net)"
  using assms
proof (rule populate_Inr)
  fix pts tgt r1 ags gr
  assume ca: "create_agents env net tgt (enumerate 0 (map (query env (nodes_xy net)) pts)) []
                (NetworkGrid net) = Inr (ags, gr)"
    and m: "m = \<lparr>seed = sd, hazard = hz, agent_locations = al,
          schedule = \<lparr>agents = ags, steps = 0\<rparr>,
          G = net, grid = gr, target_node = tgt, random = r1,
          data_collector = \<lparr>model_vars = [], agent_records = []\<rparr>\<rparr>"
  from create_agents_dom [OF ca] m show ?thesis
    by (simp add: NetworkGrid_dom)
qed

lemma populate_target:
  assumes "populate env r0 net hz al (Some t) sd joined = Inr m"
  shows "target_node m = t"
  using assms by (rule populate_Inr) (simp add: choose_target_def)

lemma populate_no_rows:
  assumes "choose_target env r0 net tg = Inr (t, r1)"
  shows "\<exists>m. populate env r0 net hz al tg sd [] = Inr m \<and> agents (schedule m) = []"
  using assms by (simp add: populate_def)

lemma choose_target_ok:
  assumes "tg = None \<longrightarrow> nodes_rows net \<noteq> []"
  shows "\<exists>t r1. choose_target env r0 net tg = Inr (t, r1)"
proof (cases tg)
  case None
  with assms have "nodes_index net \<noteq> []" by (simp add: nodes_index_def)
  with None show ?thesis
    by (cases "random_choice env r0 (nodes_index net)") (simp add: choose_target_def)
next
  case (Some t)
  then show ?thesis by (simp add: choose_target_def)
qed

lemma step_loop_add:
  "step_loop env (a + b) m = (case step_loop env a m of Inl e \<Rightarrow> Inl e | Inr m' \<Rightarrow> step_loop env b m')"
  by (induction a arbitrary: m) (auto split: sum.splits)

subsection \<open>What an activation and a step change\<close>

lemma activate_Inr:
  assumes "activate env m k = Inr m'"
  obtains a p v gr where
    "find (\<lambda>a. unique_id a = k) (agents (schedule m)) = Some a"
    "agent_step env (G m) (target_node m) a = Inr (p, v)"
    "(if p = pos a then Inr (grid m) else move_agent (grid m) k (pos a) p) = Inr gr"
    "m' = m\<lparr>grid := gr,
            schedule := (schedule m)\<lparr>agents :=
              map (\<lambda>b. if unique_id b = k then b\<lparr>pos := p, nav := v\<rparr> else b)
                  (agents (schedule m))\<rparr>\<rparr>"
  using assms unfolding activate_def
  by (auto split: option.splits sum.splits prod.splits)

lemma activate_fields:
  assumes "activate env m k = Inr m'"
  shows "G m' = G m" and "target_node m' = target_node m"
    and "data_collector m' = data_collector m"
    and "steps (schedule m') = steps (schedule m)"
    and "random m' = random m"
    and "map unique_id (agents (schedule m')) = map unique_id (agents (schedule m))"
  using assms by (auto elim!: activate_Inr simp: comp_def cong: map_cong)

lemma activate_all_fields:
  assumes "activate_all env ks m = Inr m'"
  shows "G m' = G m" and "target_node m' = target_node m"
    and "data_collector m' = data_collector m"
    and "steps (schedule m') = steps (schedule m)"
    and "map unique_id (agents (schedule m')) = map unique_id (agents (schedule m))"
  using assms
proof (induction ks arbitrary: m)
  case Nil
  { case 1 then show ?case by simp }
  { case 2 then show ?case by simp }
  { case 3 then show ?case by simp }
  { case 4 then show ?case by simp }
  { case 5 then show ?case by simp }
next
  case (Cons k ks)
  { case 1 then show ?case by (auto split: sum.splits simp: Cons.IH(1) activate_fields) }
  { case 2 then show ?case by (auto split: sum.splits simp: Cons.IH(2) activate_fields) }
  { case 3 then show ?case by (auto split: sum.splits simp: Cons.IH(3) activate_fields) }
  { case 4 then show ?case by (auto split: sum.splits simp: Cons.IH(4) activate_fields) }
  { case 5 then show ?case by (auto split: sum.splits simp: Cons.IH(5) activate_fields) }
qed

lemma schedule_step_Inr:
  assumes "schedule_step env m = Inr m'"
  obtains m1 where
    "activate_all env (fst (random_shuffle env (random m) (map unique_id (agents (schedule m)))))
       (m\<lparr>random := snd (random_shuffle env (random m) (map unique_id (agents (schedule m))))\<rparr>)
     = Inr m1"
    "m' = m1\<lparr>schedule := (schedule m1)\<lparr>steps := Suc (steps (schedule m1))\<rparr>\<rparr>"
  using assms unfolding schedule_step_def
  by (auto split: prod.splits sum.splits)

lemma collect_Inr:
  assumes "collect m = Inr m'"
  obtains occ where
    "grid m (target_node m) = Some occ"
    "m' = m\<lparr>data_collector :=
            \<lparr>model_vars = model_vars (data_collector m) @ [length occ],
             agent_records = AList.update (steps (schedule m)) (record_agents m)
                               (agent_records (data_collector m))\<rparr>\<rparr>"
  using assms unfolding collect_def
  by (auto split: option.splits)

lemma step_Inr:
  assumes "step env m = Inr m'"
  obtains m1 where "collect m = Inr m1" "schedule_step env m1 = Inr m'"
  using assms unfolding step_def by (auto split: sum.splits)

lemma schedule_step_fields:
  assumes "schedule_step env m = Inr m'"
  shows "G m' = G m" and "target_node m' = target_node m"
    and "data_collector m' = data_collector m"
    and "steps (schedule m') = Suc (steps (schedule m))"
    and "map unique_id (agents (schedule m')) = map unique_id (agents (schedule m))"
  using assms
  by (auto elim!: schedule_step_Inr dest: activate_all_fields)

lemma step_fields:
  assumes "step env m = Inr m'"
  shows "G m' = G m" and "target_node m' = target_node m"
    and "steps (schedule m') = Suc (steps (schedule m))"
    and "map unique_id (agents (schedule m')) = map unique_id (agents (schedule m))"
    and "agent_records (data_collector m') =
           AList.update (steps (schedule m)) (record_agents m) (agent_records (data_collector m))"
  using assms
  by (auto elim!: step_Inr collect_Inr dest: schedule_step_fields)

lemma update_fresh_key:
  "k \<notin> fst ` set al \<Longrightarrow> AList.update k v al = al @ [(k, v)]"
  by (induction al) auto

lemma advance_id: "unique_id (advance env net tgt a) = unique_id a"
  by (simp add: advance_def split: sum.splits prod.splits)

lemma activate_agents:
  assumes act: "activate env m k = Inr m'"
    and dist: "distinct (map unique_id (agents (schedule m)))"
  shows "agents (schedule m') =
         map (\<lambda>b. if unique_id b = k then advance env (G m) (target_node m) b else b)
             (agents (schedule m))"
  using act
proof (rule activate_Inr)
  fix a p v gr
  assume f: "find (\<lambda>a. unique_id a = k) (agents (schedule m)) = Some a"
    and s: "agent_step env (G m) (target_node m) a = Inr (p, v)"
    and m': "m' = m\<lparr>grid := gr,
            schedule := (schedule m)\<lparr>agents :=
              map (\<lambda>b. if unique_id b = k then b\<lparr>pos := p, nav := v\<rparr> else b)
                  (agents (schedule m))\<rparr>\<rparr>"
  from f have a: "a \<in> set (agents (schedule m))" "unique_id a = k"
    by (auto simp: find_Some_iff)
  have "b = a" if "b \<in> set (agents (schedule m))" "unique_id b = k" for b
    using that a dist by (auto simp: distinct_map dest: inj_onD)
  then have "b\<lparr>pos := p, nav := v\<rparr> = advance env (G m) (target_node m) b"
    if "b \<in> set (agents (schedule m))" "unique_id b = k" for b
    using that s by (simp add: advance_def)
  with m' show ?thesis
    by (auto intro!: map_cong)
qed

lemma activate_all_agents:
  assumes "activate_all env ks m = Inr m'"
    and "distinct ks"
    and "distinct (map unique_id (agents (schedule m)))"
  shows "agents (schedule m') =
         map (\<lambda>b. if unique_id b \<in> set ks then advance env (G m) (target_node m) b else b)
             (agents (schedule m))"
  using assms
proof (induction ks arbitrary: m)
  case Nil
  then show ?case by simp
next
  case (Cons k ks)
  from Cons.prems(1) obtain m1 where
    a: "activate env m k = Inr m1" and r: "activate_all env ks m1 = Inr m'"
    by (auto split: sum.splits)
  from Cons.prems(2) have k: "k \<notin> set ks" and d: "distinct ks" by simp_all
  from Cons.prems(3) activate_fields(6) [OF a]
  have d1: "distinct (map unique_id (agents (schedule m1)))" by simp
  have "agents (schedule m') =
        map (\<lambda>b. if unique_id b \<in> set ks then advance env (G m) (target_node m) b else b)
            (agents (schedule m1))"
    using Cons.IH [OF r d d1] activate_fields(1,2) [OF a] by simp
  also have "\<dots> =
        map (\<lambda>b. if unique_id b \<in> set (k # ks) then advance env (G m) (target_node m) b else b)
            (agents (schedule m))"
    unfolding activate_agents [OF a Cons.prems(3)] using k
    by (auto simp: advance_id)
  finally show ?case .
qed

lemma schedule_step_agents:
  assumes s: "schedule_step env m = Inr m'"
    and perm: "\<forall>r ks. mset (fst (random_shuffle env r ks)) = mset ks"
    and dist: "distinct (map unique_id (agents (schedule m)))"
  shows "agents (schedule m') = map (advance env (G m) (target_node m)) (agents (schedule m))"
  using s
proof (rule schedule_step_Inr)
  fix m1
  let ?ids = "map unique_id (agents (schedule m))"
  let ?ks = "fst (random_shuffle env (random m) ?ids)"
  assume a: "activate_all env ?ks (m\<lparr>random := snd (random_shuffle env (random m) ?ids)\<rparr>) = Inr m1"
    and m': "m' = m1\<lparr>schedule := (schedule m1)\<lparr>steps := Suc (steps (schedule m1))\<rparr>\<rparr>"
  from perm have p: "mset ?ks = mset ?ids" by blast
  then have dk: "distinct ?ks" using dist by (metis mset_eq_imp_distinct_iff)
  from p have sk: "set ?ks = set ?ids" by (rule mset_eq_setD)
  from activate_all_agents [OF a dk] dist
  have "agents (schedule m1) =
        map (\<lambda>b. if unique_id b \<in> set ?ks then advance env (G m) (target_node m) b else b)
            (agents (schedule m))"
    by simp
  also have "\<dots> = map (advance env (G m) (target_node m)) (agents (schedule m))"
    unfolding sk by (rule map_cong) auto
  finally show ?thesis using m' by simp
qed

lemma step_agents:
  assumes "step env m = Inr m'"
    and "\<forall>r ks. mset (fst (random_shuffle env r ks)) = mset ks"
    and "distinct (map unique_id (agents (schedule m)))"
  shows "agents (schedule m') = map (advance env (G m) (target_node m)) (agents (schedule m))"
  using assms(1)
proof (rule step_Inr)
  fix m1
  assume c: "collect m = Inr m1" and s: "schedule_step env m1 = Inr m'"
  from c have "schedule m1 = schedule m" "G m1 = G m" "target_node m1 = target_node m"
    by (auto elim!: collect_Inr)
  with schedule_step_agents [OF s assms(2)] assms(3) show ?thesis by simp
qed

lemma step_loop_trajectory:
  assumes "step_loop env n m = Inr m'"
    and perm: "\<forall>r ks. mset (fst (random_shuffle env r ks)) = mset ks"
    and "distinct (map unique_id (agents (schedule m)))"
    and "\<forall>k\<in>fst ` set (agent_records (data_collector m)). k < steps (schedule m)"
  shows "agents (schedule m') = map (advance env (G m) (target_node m) ^^ n) (agents (schedule m)) \<and>
         steps (schedule m') = steps (schedule m) + n \<and>
         agent_records (data_collector m') =
           agent_records (data_collector m) @
           map (\<lambda>t. (steps (schedule m) + t,
                     map (\<lambda>a. (steps (schedule m) + t, unique_id a,
                                pos ((advance env (G m) (target_node m) ^^ t) a)))
                         (agents (schedule m))))
               [0..<n]"
  using assms(1,3,4)
proof (induction n arbitrary: m)
  case 0
  then show ?case by simp
next
  case (Suc n)
  let ?adv = "advance env (G m) (target_node m)"
  let ?s = "steps (schedule m)"
  from Suc.prems(1) obtain m1 where
    st: "step env m = Inr m1" and loop: "step_loop env n m1 = Inr m'"
    by (auto split: sum.splits)
  note f = step_fields [OF st]
  have ag1: "agents (schedule m1) = map ?adv (agents (schedule m))"
    by (rule step_agents [OF st perm Suc.prems(2)])
  from Suc.prems(3) have "?s \<notin> fst ` set (agent_records (data_collector m))"
    by auto
  with f(5) have rec1: "agent_records (data_collector m1) =
      agent_records (data_collector m) @ [(?s, record_agents m)]"
    by (simp add: update_fresh_key)
  have d1: "distinct (map unique_id (agents (schedule m1)))"
    using Suc.prems(2) f(4) by simp
  have k1: "\<forall>k\<in>fst ` set (agent_records (data_collector m1)). k < steps (schedule m1)"
    using Suc.prems(3) rec1 f(3) by auto
  from Suc.IH [OF loop d1 k1] f(1,2,3)
  have ih: "agents (schedule m') = map (?adv ^^ n) (agents (schedule m1))"
    "steps (schedule m') = Suc ?s + n"
    "agent_records (data_collector m') =
       agent_records (data_collector m1) @
       map (\<lambda>t. (Suc ?s + t, map (\<lambda>a. (Suc ?s + t, unique_id a, pos ((?adv ^^ t) a)))
                                 (agents (schedule m1))))
           [0..<n]"
    by simp_all
  have a: "agents (schedule m') = map (?adv ^^ Suc n) (agents (schedule m))"
    unfolding ih(1) ag1 by (simp add: funpow_swap1)
  have "agent_records (data_collector m') =
       agent_records (data_collector m) @
       (?s, record_agents m) #
       map (\<lambda>t. (?s + Suc t, map (\<lambda>a. (?s + Suc t, unique_id a, pos ((?adv ^^ Suc t) a)))
                                 (agents (schedule m))))
           [0..<n]"
    unfolding ih(3) rec1 ag1 by (simp add: comp_def advance_id funpow_swap1)
  also have "(?s, record_agents m) #
       map (\<lambda>t. (?s + Suc t, map (\<lambda>a. (?s + Suc t, unique_id a, pos ((?adv ^^ Suc t) a)))
                                 (agents (schedule m))))
           [0..<n] =
       map (\<lambda>t. (?s + t, map (\<lambda>a. (?s + t, unique_id a, pos ((?adv ^^ t) a)))
                             (agents (schedule m))))
           [0..<Suc n]"
    unfolding map_upt_Suc by (simp add: record_agents_def)
  finally show ?case using a ih(2) by simp
qed

lemma init_distinct_ids:
  "fst (init env r0 f hz al tg sd st) = Inr m \<Longrightarrow> distinct (map unique_id (agents (schedule m)))"
  by (simp add: init_agent_ids)

subsection \<open>Every step succeeds on a well-placed model\<close>

lemma place_agent_occupies:
  assumes "place_agent gr i node = Inr g1"
  shows "occupies gr b \<Longrightarrow> occupies g1 b"
    and "occupies g1 \<lparr>unique_id = i, pos = node, nav = v\<rparr>"
  using assms
  by (auto simp: place_agent_def occupies_def split: option.splits if_splits)

lemma create_agents_occupies:
  "create_agents env net tgt xs ags gr = Inr (ags', gr') \<Longrightarrow>
   list_all (occupies gr) ags \<Longrightarrow> list_all (occupies gr') ags'"
proof (induction xs arbitrary: ags gr)
  case Nil
  then show ?case by simp
next
  case (Cons x xs)
  obtain i idx where x: "x = (i, idx)" by (cases x)
  from Cons.prems(1) x obtain g1 v where
    p: "place_agent gr i (nodes_index net ! idx) = Inr g1" and
    r: "create_agents env net tgt xs
          (ags @ [\<lparr>unique_id = i, pos = nodes_index net ! idx, nav = v\<rparr>]) g1 = Inr (ags', gr')"
    by (auto simp: Let_def split: if_splits sum.splits)
  from Cons.prems(2) place_agent_occupies [OF p]
  have "list_all (occupies g1) (ags @ [\<lparr>unique_id = i, pos = nodes_index net ! idx, nav = v\<rparr>])"
    by (auto simp: list_all_iff)
  from Cons.IH [OF r this] show ?case .
qed

lemma init_placed:
  assumes "fst (init env r0 f hz al tg sd st) = Inr m"
  shows "placed m"
proof -
  from init_graph [OF assms] obtain net where net: "graph_from_file env f = Some net" ..
  with assms have p: "populate env r0 net hz al tg sd (agents_in_hazard_zone env st hz al) = Inr m"
    by (simp add: fst_init)
  have "list_all (occupies (grid m)) (agents (schedule m))"
    using p
  proof (rule populate_Inr)
    fix pts tgt r1 ags gr
    assume ca: "create_agents env net tgt (enumerate 0 (map (query env (nodes_xy net)) pts)) []
                  (NetworkGrid net) = Inr (ags, gr)"
      and m: "m = \<lparr>seed = sd, hazard = hz, agent_locations = al,
            schedule = \<lparr>agents = ags, steps = 0\<rparr>,
            G = net, grid = gr, target_node = tgt, random = r1,
            data_collector = \<lparr>model_vars = [], agent_records = []\<rparr>\<rparr>"
    from create_agents_occupies [OF ca] m show ?thesis by simp
  qed
  with populate_grid_dom [OF p] populate_fields(1) [OF p] init_distinct_ids [OF assms]
  show ?thesis by (simp add: placed_def)
qed

lemma move_agent_ok:
  assumes "gr old = Some occ" and "k \<in> set occ" and "gr new = Some occ'" and "new \<noteq> old"
  shows "move_agent gr k old new = Inr (gr(old \<mapsto> remove1 k occ, new \<mapsto> occ' @ [k]))"
  using assms by (simp add: move_agent_def place_agent_def)

lemma occupies_moved:
  assumes "occupies gr b" and "unique_id b \<noteq> k"
    and "gr old = Some occ" and "gr new = Some occ'" and "new \<noteq> old"
  shows "occupies (gr(old \<mapsto> remove1 k occ, new \<mapsto> occ' @ [k])) b"
  using assms by (auto simp: occupies_def split: option.splits)

lemma ids_of_updated:
  "map unique_id (map (\<lambda>b. if unique_id b = k then b\<lparr>pos := p, nav := v\<rparr> else b) ags) =
   map unique_id ags"
  by (induction ags) auto

lemma activate_ok:
  assumes pl: "placed m"
    and k: "k \<in> set (map unique_id (agents (schedule m)))"
    and P: "list_all P (agents (schedule m))"
    and contract: "step_contract env (G m) (target_node m) P"
  shows "\<exists>m'. activate env m k = Inr m' \<and> placed m' \<and> list_all P (agents (schedule m'))"
proof -
  let ?ags = "agents (schedule m)"
  from k obtain a where a: "find (\<lambda>a. unique_id a = k) ?ags = Some a"
    by (cases "find (\<lambda>a. unique_id a = k) ?ags") (auto simp: find_None_iff)
  then have ain: "a \<in> set ?ags" and ak: "unique_id a = k"
    by (auto simp: find_Some_iff)
  from pl have dom: "dom (grid m) = set (nodes_index (G m))"
    and dist: "distinct (map unique_id ?ags)"
    and occ_all: "list_all (occupies (grid m)) ?ags"
    by (simp_all add: placed_def)
  from occ_all ain ak obtain occ where occ: "grid m (pos a) = Some occ" "k \<in> set occ"
    by (auto simp: list_all_iff occupies_def split: option.splits)
  then have "pos a \<in> set (nodes_index (G m))"
    using dom by auto
  moreover from P ain have "P a" by (simp add: list_all_iff)
  ultimately obtain p v where
    s: "agent_step env (G m) (target_node m) a = Inr (p, v)" and
    pn: "p \<in> set (nodes_index (G m))" and
    Pa: "P (a\<lparr>pos := p, nav := v\<rparr>)"
    using contract unfolding step_contract_def by blast
  let ?ags' = "map (\<lambda>b. if unique_id b = k then b\<lparr>pos := p, nav := v\<rparr> else b) ?ags"
  have uniq: "b = a" if "b \<in> set ?ags" "unique_id b = k" for b
    using that ain ak dist by (auto simp: distinct_map dest: inj_onD)
  have P': "list_all P ?ags'"
    using P Pa uniq by (auto simp: list_all_iff)
  have dist': "distinct (map unique_id ?ags')"
    using dist by (simp only: ids_of_updated)
  show ?thesis
  proof (cases "p = pos a")
    case True
    have act: "activate env m k = Inr (m\<lparr>grid := grid m, schedule := (schedule m)\<lparr>agents := ?ags'\<rparr>\<rparr>)"
      by (simp add: activate_def a s True)
    have "list_all (occupies (grid m)) ?ags'"
      using occ_all occ True uniq by (auto simp: list_all_iff occupies_def)
    with dom dist' P' act show ?thesis
      by (simp add: placed_def)
  next
    case False
    from pn dom obtain occ' where occ': "grid m p = Some occ'"
      by auto
    let ?gr = "(grid m)(pos a \<mapsto> remove1 k occ, p \<mapsto> occ' @ [k])"
    have mv: "move_agent (grid m) k (pos a) p = Inr ?gr"
      by (rule move_agent_ok [OF occ occ' False])
    have act: "activate env m k = Inr (m\<lparr>grid := ?gr, schedule := (schedule m)\<lparr>agents := ?ags'\<rparr>\<rparr>)"
      by (simp add: activate_def a s False mv)
    have dom': "dom ?gr = set (nodes_index (G m))"
      using dom occ occ' by auto
    have "occupies ?gr (if unique_id b = k then b\<lparr>pos := p, nav := v\<rparr> else b)"
      if b: "b \<in> set ?ags" for b
    proof (cases "unique_id b = k")
      case True
      then show ?thesis by (simp add: occupies_def)
    next
      case nk: False
      from occ_all b have "occupies (grid m) b" by (simp add: list_all_iff)
      from occupies_moved [OF this nk occ(1) occ' False] nk show ?thesis by simp
    qed
    then have "\<forall>b\<in>set ?ags. occupies ?gr (if unique_id b = k then b\<lparr>pos := p, nav := v\<rparr> else b)"
      by blast
    then have "list_all (occupies ?gr) ?ags'"
      unfolding list_all_iff set_map by blast
    with dom' dist' P' act show ?thesis
      by (simp add: placed_def)
  qed
qed

lemma activate_all_ok:
  assumes "placed m"
    and "set ks \<subseteq> set (map unique_id (agents (schedule m)))"
    and "list_all P (agents (schedule m))"
    and "step_contract env (G m) (target_node m) P"
  shows "\<exists>m'. activate_all env ks m = Inr m' \<and> placed m' \<and> list_all P (agents (schedule m'))"
  using assms
proof (induction ks arbitrary: m)
  case Nil
  then show ?case by simp
next
  case (Cons k ks)
  from Cons.prems(2) have k: "k \<in> set (map unique_id (agents (schedule m)))" by simp
  from activate_ok [OF Cons.prems(1) k Cons.prems(3,4)] obtain m1 where
    a: "activate env m k = Inr m1" and p1: "placed m1" and P1: "list_all P (agents (schedule m1))"
    by blast
  note f = activate_fields [OF a]
  from Cons.prems(2) f(6) have ks: "set ks \<subseteq> set (map unique_id (agents (schedule m1)))"
    by simp
  from Cons.prems(4) f(1,2) have c1: "step_contract env (G m1) (target_node m1) P"
    by simp
  from Cons.IH [OF p1 ks P1 c1] a show ?case by simp
qed

lemma placed_cong:
  "grid m' = grid m \<Longrightarrow> G m' = G m \<Longrightarrow> agents (schedule m') = agents (schedule m) \<Longrightarrow>
   placed m' = placed m"
  by (simp add: placed_def)

lemma schedule_step_ok:
  assumes pl: "placed m"
    and perm: "\<forall>r ks. mset (fst (random_shuffle env r ks)) = mset ks"
    and P: "list_all P (agents (schedule m))"
    and c: "step_contract env (G m) (target_node m) P"
  shows "\<exists>m'. schedule_step env m = Inr m' \<and> placed m' \<and> list_all P (agents (schedule m'))"
proof -
  let ?ids = "map unique_id (agents (schedule m))"
  let ?sh = "random_shuffle env (random m) ?ids"
  let ?m0 = "m\<lparr>random := snd ?sh\<rparr>"
  from perm have "mset (fst ?sh) = mset ?ids" by blast
  then have "set (fst ?sh) = set ?ids" by (rule mset_eq_setD)
  then have ks: "set (fst ?sh) \<subseteq> set (map unique_id (agents (schedule ?m0)))" by simp
  from pl have pl0: "placed ?m0" by (simp add: placed_def)
  from P have P0: "list_all P (agents (schedule ?m0))" by simp
  from c have c0: "step_contract env (G ?m0) (target_node ?m0) P" by simp
  from activate_all_ok [OF pl0 ks P0 c0] obtain m1 where
    a: "activate_all env (fst ?sh) ?m0 = Inr m1" and p1: "placed m1"
    and P1: "list_all P (agents (schedule m1))"
    by blast
  let ?m' = "m1\<lparr>schedule := (schedule m1)\<lparr>steps := Suc (steps (schedule m1))\<rparr>\<rparr>"
  have "schedule_step env m = Inr ?m'"
    using a by (simp add: schedule_step_def case_prod_unfold)
  moreover from p1 have "placed ?m'" by (simp add: placed_def)
  moreover from P1 have "list_all P (agents (schedule ?m'))" by simp
  ultimately show ?thesis by blast
qed

lemma step_ok:
  assumes pl: "placed m"
    and tgt: "target_node m \<in> set (nodes_index (G m))"
    and perm: "\<forall>r ks. mset (fst (random_shuffle env r ks)) = mset ks"
    and P: "list_all P (agents (schedule m))"
    and c: "step_contract env (G m) (target_node m) P"
  shows "\<exists>m'. step env m = Inr m' \<and> placed m' \<and> list_all P (agents (schedule m'))"
proof -
  from pl tgt obtain occ where occ: "grid m (target_node m) = Some occ"
    by (auto simp: placed_def)
  let ?m1 = "m\<lparr>data_collector :=
            \<lparr>model_vars = model_vars (data_collector m) @ [length occ],
             agent_records = AList.update (steps (schedule m)) (record_agents m)
                               (agent_records (data_collector m))\<rparr>\<rparr>"
  have col: "collect m = Inr ?m1"
    using occ by (simp add: collect_def)
  from pl have pl1: "placed ?m1" by (simp add: placed_def)
  from P have P1: "list_all P (agents (schedule ?m1))" by simp
  from c have c1: "step_contract env (G ?m1) (target_node ?m1) P" by simp
  from schedule_step_ok [OF pl1 perm P1 c1] col show ?thesis
    by (simp add: step_def)
qed

lemma step_loop_ok:
  assumes "placed m"
    and "target_node m \<in> set (nodes_index (G m))"
    and perm: "\<forall>r ks. mset (fst (random_shuffle env r ks)) = mset ks"
    and "list_all P (agents (schedule m))"
    and "step_contract env (G m) (target_node m) P"
  shows "\<exists>m'. step_loop env n m = Inr m'"
  using assms(1,2,4,5)
proof (induction n arbitrary: m)
  case 0
  then show ?case by simp
next
  case (Suc n)
  from step_ok [OF Suc.prems(1,2) perm Suc.prems(3,4)] obtain m1 where
    s: "step env m = Inr m1" and p1: "placed m1" and P1: "list_all P (agents (schedule m1))"
    by blast
  note f = step_fields [OF s]
  from Suc.prems(2,4) f(1,2) have
    "target_node m1 \<in> set (nodes_index (G m1))" "step_contract env (G m1) (target_node m1) P"
    by simp_all
  from Suc.IH [OF p1 this(1) P1 this(2)] s show ?case by simp
qed

lemma fresh_loop_records:
  assumes "fst (init env r0 f hz al tg sd st) = Inr m0"
    and "\<forall>r ks. mset (fst (random_shuffle env r ks)) = mset ks"
    and "step_loop env n m0 = Inr m"
  shows "agent_records (data_collector m) =
         map (\<lambda>t. (t, map (\<lambda>a. (t, unique_id a,
                                  pos ((advance env (G m0) (target_node m0) ^^ t) a)))
                           (agents (schedule m0))))
             [0..<n]"
proof -
  from init_Inr_fields(2,3) [OF assms(1)]
  have "steps (schedule m0) = 0" "agent_records (data_collector m0) = []"
    by simp_all
  with step_loop_trajectory [OF assms(3,2) init_distinct_ids [OF assms(1)]]
  show ?thesis by simp
qed

lemma series_index:
  "map (\<lambda>(t, i, p). (t, i))
     (concat (map snd (map (\<lambda>t. (t, map (\<lambda>a. (t, unique_id a, q t a)) ags)) [0..<n]))) =
   List.product [0..<n] (map unique_id ags)"
  by (simp add: product_concat_map map_concat comp_def)

lemma product_indices:
  assumes "i \<in> set ids"
  shows "{t. (t, i) \<in> set (List.product [0..<n] ids)} = {0..<n}"
  using assms by auto

subsection \<open>Placement is kept by every completed step; the stored seed is inert\<close>

lemma move_agent_Inr:
  assumes "move_agent gr k old new = Inr gr'"
  obtains occ occ' where "gr old = Some occ" "k \<in> set occ"
    "(gr(old \<mapsto> remove1 k occ)) new = Some occ'"
    "gr' = gr(old \<mapsto> remove1 k occ, new \<mapsto> occ' @ [k])"
  using assms unfolding move_agent_def place_agent_def
  by (auto split: option.splits if_splits)

lemma activate_placed:
  assumes act: "activate env m k = Inr m'" and pl: "placed m"
  shows "placed m'"
  using act
proof (rule activate_Inr)
  fix a p v gr
  let ?ags = "agents (schedule m)"
  let ?ags' = "map (\<lambda>b. if unique_id b = k then b\<lparr>pos := p, nav := v\<rparr> else b) ?ags"
  assume f: "find (\<lambda>a. unique_id a = k) ?ags = Some a"
    and g: "(if p = pos a then Inr (grid m) else move_agent (grid m) k (pos a) p) = Inr gr"
    and m': "m' = m\<lparr>grid := gr, schedule := (schedule m)\<lparr>agents := ?ags'\<rparr>\<rparr>"
  from f have ain: "a \<in> set ?ags" and ak: "unique_id a = k"
    by (auto simp: find_Some_iff)
  from pl have dom: "dom (grid m) = set (nodes_index (G m))"
    and dist: "distinct (map unique_id ?ags)"
    and occ_all: "list_all (occupies (grid m)) ?ags"
    by (simp_all add: placed_def)
  have dist': "distinct (map unique_id ?ags')"
    using dist by (simp only: ids_of_updated)
  have uniq: "b = a" if "b \<in> set ?ags" "unique_id b = k" for b
    using that ain ak dist by (auto simp: distinct_map dest: inj_onD)
  show ?thesis
  proof (cases "p = pos a")
    case True
    with g have gr: "gr = grid m" by simp
    from occ_all ain ak obtain occ where occ: "grid m (pos a) = Some occ" "k \<in> set occ"
      by (auto simp: list_all_iff occupies_def split: option.splits)
    have "list_all (occupies (grid m)) ?ags'"
      using occ_all occ True uniq by (auto simp: list_all_iff occupies_def)
    with dom dist' m' gr show ?thesis
      by (simp add: placed_def)
  next
    case False
    with g have "move_agent (grid m) k (pos a) p = Inr gr" by simp
    then obtain occ occ' where occ: "grid m (pos a) = Some occ" "k \<in> set occ"
      and o': "((grid m)(pos a \<mapsto> remove1 k occ)) p = Some occ'"
      and gr: "gr = (grid m)(pos a \<mapsto> remove1 k occ, p \<mapsto> occ' @ [k])"
      by (rule move_agent_Inr)
    from o' False have occ': "grid m p = Some occ'" by simp
    have dom': "dom gr = set (nodes_index (G m))"
      using dom occ occ' gr by auto
    have "occupies gr (if unique_id b = k then b\<lparr>pos := p, nav := v\<rparr> else b)"
      if b: "b \<in> set ?ags" for b
    proof (cases "unique_id b = k")
      case True
      then show ?thesis by (simp add: occupies_def gr)
    next
      case nk: False
      from occ_all b have "occupies (grid m) b" by (simp add: list_all_iff)
      from occupies_moved [OF this nk occ(1) occ' False] nk gr show ?thesis by simp
    qed
    then have "\<forall>b\<in>set ?ags. occupies gr (if unique_id b = k then b\<lparr>pos := p, nav := v\<rparr> else b)"
      by blast
    then have "list_all (occupies gr) ?ags'"
      unfolding list_all_iff set_map by blast
    with dom' dist' m' show ?thesis
      by (simp add: placed_def)
  qed
qed

lemma activate_all_placed:
  "activate_all env ks m = Inr m' \<Longrightarrow> placed m \<Longrightarrow> placed m'"
proof (induction ks arbitrary: m)
  case Nil
  then show ?case by simp
next
  case (Cons k ks)
  from Cons.prems(1) obtain m1 where
    a: "activate env m k = Inr m1" and r: "activate_all env ks m1 = Inr m'"
    by (auto split: sum.splits)
  from Cons.IH [OF r activate_placed [OF a Cons.prems(2)]] show ?case .
qed

lemma step_placed:
  assumes "step env m = Inr m'" and "placed m"
  shows "placed m'"
  using assms(1)
proof (rule step_Inr)
  fix m1
  assume c: "collect m = Inr m1" and s: "schedule_step env m1 = Inr m'"
  from c have "grid m1 = grid m" "G m1 = G m" "agents (schedule m1) = agents (schedule m)"
    by (auto elim!: collect_Inr)
  then have "placed m1 = placed m" by (rule placed_cong)
  with assms(2) have p1: "placed m1" by simp
  from s show ?thesis
  proof (rule schedule_step_Inr)
    fix m2
    assume a: "activate_all env (fst (random_shuffle env (random m1) (map unique_id (agents (schedule m1)))))
       (m1\<lparr>random := snd (random_shuffle env (random m1) (map unique_id (agents (schedule m1))))\<rparr>)
       = Inr m2"
      and m': "m' = m2\<lparr>schedule := (schedule m2)\<lparr>steps := Suc (steps (schedule m2))\<rparr>\<rparr>"
    from p1 have "placed (m1\<lparr>random := snd (random_shuffle env (random m1) (map unique_id (agents (schedule m1))))\<rparr>)"
      by (simp add: placed_def)
    from activate_all_placed [OF a this] m' show ?thesis
      by (simp add: placed_def)
  qed
qed

lemma step_loop_placed:
  "step_loop env n m = Inr m' \<Longrightarrow> placed m \<Longrightarrow> placed m' \<and> G m' = G m \<and> target_node m' = target_node m"
proof (induction n arbitrary: m)
  case 0
  then show ?case by simp
next
  case (Suc n)
  from Suc.prems(1) obtain m1 where
    s: "step env m = Inr m1" and l: "step_loop env n m1 = Inr m'"
    by (auto split: sum.splits)
  from Suc.IH [OF l step_placed [OF s Suc.prems(2)]] step_fields(1,2) [OF s]
  show ?case by simp
qed

lemma placed_positions:
  assumes "placed m" and "a \<in> set (agents (schedule m))"
  shows "pos a \<in> set (nodes_index (G m))"
proof -
  from assms have "occupies (grid m) a" by (simp add: placed_def list_all_iff)
  then have "pos a \<in> dom (grid m)" by (auto simp: occupies_def split: option.splits)
  with assms(1) show ?thesis by (simp add: placed_def)
qed

lemma populate_seed:
  "populate env r0 net hz al tg sd joined =
   map_sum id (\<lambda>m :: ('r, 'v) model. m\<lparr>seed := sd\<rparr>) (populate env r0 net hz al tg sd' joined)"
  by (simp add: populate_def split: sum.splits prod.splits)

lemma init_seed:
  "fst (init env r0 f hz al tg sd st) =
   map_sum id (\<lambda>m :: ('r, 'v) model. m\<lparr>seed := sd\<rparr>) (fst (init env r0 f hz al tg sd' st))"
proof (cases "graph_from_file env f")
  case None
  then show ?thesis by (simp add: init_def)
next
  case (Some net)
  show ?thesis
    unfolding fst_init [OF Some] by (rule populate_seed)
qed

lemma collect_seed:
  "collect (m\<lparr>seed := s\<rparr>) = map_sum id (\<lambda>m' :: ('r, 'v) model. m'\<lparr>seed := s\<rparr>) (collect m)"
  by (simp add: collect_def record_agents_def split: option.splits)

lemma activate_seed:
  "activate env (m\<lparr>seed := s\<rparr>) k = map_sum id (\<lambda>m' :: ('r, 'v) model. m'\<lparr>seed := s\<rparr>) (activate env m k)"
  by (simp add: activate_def split: option.splits sum.splits prod.splits)

lemma activate_all_seed:
  "activate_all env ks (m\<lparr>seed := s\<rparr>) =
   map_sum id (\<lambda>m' :: ('r, 'v) model. m'\<lparr>seed := s\<rparr>) (activate_all env ks m)"
  by (induction ks arbitrary: m) (simp_all add: activate_seed split: sum.splits)

lemma schedule_step_seed:
  "schedule_step env (m\<lparr>seed := s\<rparr>) =
   map_sum id (\<lambda>m' :: ('r, 'v) model. m'\<lparr>seed := s\<rparr>) (schedule_step env m)"
proof -
  let ?sh = "random_shuffle env (random m) (map unique_id (agents (schedule m)))"
  have c: "m\<lparr>seed := s, random := snd ?sh\<rparr> = m\<lparr>random := snd ?sh, seed := s\<rparr>"
    by (cases m) simp
  have a: "activate_all env (fst ?sh) (m\<lparr>seed := s, random := snd ?sh\<rparr>) =
        map_sum id (\<lambda>m' :: ('r, 'v) model. m'\<lparr>seed := s\<rparr>)
          (activate_all env (fst ?sh) (m\<lparr>random := snd ?sh\<rparr>))"
    by (simp only: c activate_all_seed)
  show ?thesis
  proof (cases "activate_all env (fst ?sh) (m\<lparr>random := snd ?sh\<rparr>)")
    case (Inl e)
    with a show ?thesis
      by (simp add: schedule_step_def case_prod_unfold)
  next
    case (Inr m1)
    with a show ?thesis
      by (simp add: schedule_step_def case_prod_unfold)
  qed
qed

lemma step_seed:
  "step env (m\<lparr>seed := s\<rparr>) = map_sum id (\<lambda>m' :: ('r, 'v) model. m'\<lparr>seed := s\<rparr>) (step env m)"
  by (simp add: step_def collect_seed schedule_step_seed split: sum.splits)

lemma step_loop_seed:
  "step_loop env n (m\<lparr>seed := s\<rparr>) = map_sum id (\<lambda>m' :: ('r, 'v) model. m'\<lparr>seed := s\<rparr>) (step_loop env n m)"
  by (induction n arbitrary: m) (simp_all add: step_seed split: sum.splits)

subsection \<open>Evaluation on the concrete town\<close>

lemmas town_defs =
  init_def populate_def town_env_def town_def frames_def three_candidates_def far_candidate_def
  hazard_ab_def hazard_overlap_def hazard_bng_def zone_ab_def zone_b_def
  set_crs_def agents_in_hazard_zone_def sjoin_def nodes_index_def nodes_xy_def
  nearest_def sqdist_def choose_target_def NetworkGrid_def place_agent_def line_route_def
  hazard_filter_def

lemmas town_run_defs =
  run_def step_def collect_def record_agents_def schedule_step_def activate_def move_agent_def walker_step_def
  counter_shuffle_def get_agent_vars_dataframe_def

lemma town_ab_init:
  "\<exists>m. fst (init town_env 0 ''town.osm'' 0 1 (Some 4) None (frames hazard_ab three_candidates)) = Inr m \<and>
       map (\<lambda>a. (unique_id a, pos a)) (agents (schedule m)) = [(0, 1), (1, 2)]"
  by (simp add: town_defs)

lemma town_ab_run1:
  "\<exists>m d m'. fst (init town_env 0 ''town.osm'' 0 1 (Some 4) None (frames hazard_ab three_candidates)) = Inr m \<and>
       run town_env 1 m = Inr (d, m') \<and> d = [(0, 0, 1), (0, 1, 2)]"
  by (simp add: town_defs town_run_defs)

lemma town_bng_init:
  "\<exists>m. fst (init town_env 0 ''town.osm'' 0 1 (Some 4) None (frames hazard_bng three_candidates)) = Inr m \<and>
       nodes_crs (G m) = ''epsg:4326''"
  by (simp add: town_defs)

lemma town_shuffle_permutes:
  "\<forall>r ks. mset (fst (random_shuffle town_env r ks)) = mset ks"
  by (simp add: town_env_def counter_shuffle_def)

lemma town_ab_model:
  "\<exists>m. fst (init town_env 0 ''town.osm'' 0 1 (Some 4) None (frames hazard_ab three_candidates)) = Inr m \<and>
       agents (schedule m) = [\<lparr>unique_id = 0, pos = 1, nav = [2, 3, 4]\<rparr>,
                              \<lparr>unique_id = 1, pos = 2, nav = [3, 4]\<rparr>] \<and>
       G m = town \<and> target_node m = 4"
  by (simp add: town_defs)

lemma town_ab_loop2:
  "\<exists>m0 m. fst (init town_env 0 ''town.osm'' 0 1 (Some 4) None (frames hazard_ab three_candidates)) = Inr m0 \<and>
       step_loop town_env 2 m0 = Inr m \<and>
       agent_records (data_collector m) = [(0, [(0, 0, 1), (0, 1, 2)]), (1, [(1, 0, 2), (1, 1, 3)])]"
  by (simp add: town_defs town_run_defs eval_nat_numeral)

lemma walker_contract:
  "step_contract town_env town 4 (\<lambda>a. set (nav a) \<subseteq> set (nodes_index town))"
  by (auto simp: step_contract_def town_env_def walker_step_def split: list.splits)

lemma town_overlap_init:
  "\<exists>m. fst (init town_env 0 ''town.osm'' 0 1 (Some 4) None (frames hazard_overlap three_candidates)) = Inr m \<and>
       length (agents (schedule m)) = 3"
  by (simp add: town_defs)

section \<open>The claims\<close>

subsection \<open>C1: the number of agents\<close>

text \<open>
  Claim C1 says that the number of agents after construction is the number of candidate
  locations that intersect at least one hazard polygon, also when polygons overlap. The
  constructor creates one agent per row of the join (lemma \<open>init_agent_count\<close>), and the
  join has one row per intersecting pair; the two numbers agree when no candidate
  intersects more than one polygon (lemma \<open>sjoin_length_disjoint\<close>). In the town below the
  two zones overlap around B: of the three candidates two intersect the hazard, the one
  near B intersects both zones, and construction yields three agents, two of them
  (ids 1 and 2) for that one candidate.
\<close>

theorem overlapping_zones_duplicate_agents:
  "\<not> isl (fst (init town_env 0 ''town.osm'' 0 1 (Some 4) None (frames hazard_overlap three_candidates))) \<and>
   map (\<lambda>a. (unique_id a, pos a))
     (agents (schedule (projr (fst (init town_env 0 ''town.osm'' 0 1 (Some 4) None
        (frames hazard_overlap three_candidates)))))) = [(0, 1), (1, 2), (2, 2)] \<and>
   hazard_filter rect_intersects (geometry three_candidates) (geometry hazard_overlap) =
     [Point 0 (1/2), Point 1 (1/2)]"
  by (simp add: town_defs)

subsection \<open>C2: no candidate in the hazard\<close>

text \<open>
  Claim C2 says that construction signals it when no candidate passes the hazard filter.
  The constructor has no such check. Counterexample: the single candidate near D lies
  outside the zone around A and B, and construction completes with a model without
  agents.
\<close>

theorem no_candidate_in_hazard_completes:
  "hazard_filter rect_intersects (geometry far_candidate) (geometry hazard_ab) = [] \<and>
   \<not> isl (fst (init town_env 0 ''town.osm'' 0 1 (Some 4) None (frames hazard_ab far_candidate))) \<and>
   agents (schedule (projr (fst (init town_env 0 ''town.osm'' 0 1 (Some 4) None
      (frames hazard_ab far_candidate))))) = []"
  by (simp add: town_defs)

text \<open>
  C2 as amended: when the graph loads, no candidate intersects a hazard polygon, and a
  target is supplied or the graph has a node to choose, construction completes normally
  and the model has no agents; nothing is signalled.
\<close>

theorem empty_filter_constructs_silently:
  assumes "graph_from_file env f = Some net"
    and "hazard_filter (intersects env) (geometry (st al)) (geometry (st hz)) = []"
    and "tg = None \<longrightarrow> nodes_rows net \<noteq> []"
  shows "\<exists>m. fst (init env r0 f hz al tg sd st) = Inr m \<and> agents (schedule m) = []"
proof -
  from assms(2) have "agents_in_hazard_zone env st hz al = []"
    by (simp add: agents_in_hazard_zone_def sjoin_empty_iff)
  moreover from choose_target_ok [OF assms(3), of env r0]
  obtain t r1 where "choose_target env r0 net tg = Inr (t, r1)" by blast
  ultimately show ?thesis
    using assms(1) populate_no_rows by (simp add: fst_init)
qed

text \<open>
  The theorem at a concrete input: two overlapping zones, the candidate near D, no target
  supplied.
\<close>

theorem empty_filter_constructs_silently_witness:
  "graph_from_file town_env ''town.osm'' = Some town \<and>
   hazard_filter (intersects town_env) (geometry (frames hazard_overlap far_candidate 1))
     (geometry (frames hazard_overlap far_candidate 0)) = [] \<and>
   nodes_rows town \<noteq> [] \<and>
   (\<exists>m. fst (init town_env 0 ''town.osm'' 0 1 None None (frames hazard_overlap far_candidate)) = Inr m \<and>
        agents (schedule m) = [])"
proof -
  have g: "graph_from_file town_env ''town.osm'' = Some town"
    by (simp add: town_env_def)
  have h: "hazard_filter (intersects town_env) (geometry (frames hazard_overlap far_candidate 1))
     (geometry (frames hazard_overlap far_candidate 0)) = []"
    by (simp add: town_defs)
  have n: "nodes_rows town \<noteq> []"
    by (simp add: town_def)
  then have n': "(None :: int option) = None \<longrightarrow> nodes_rows town \<noteq> []" by simp
  from empty_filter_constructs_silently [OF g h n', where ?r0.0 = 0 and sd = None] g h n
  show ?thesis by simp
qed

subsection \<open>C3: a target that is not a node\<close>

text \<open>
  Claim C3 says that a supplied target that is no node of the graph makes construction
  fail, and that no failure is left to the first step. The constructor stores the target
  unchecked (line 67). Counterexample: with target 99 and no candidate in the hazard,
  construction completes, and the first call of step raises KeyError in the reporter of
  line 76.
\<close>

theorem unknown_target_accepted:
  "99 \<notin> set (nodes_index town) \<and>
   \<not> isl (fst (init town_env 0 ''town.osm'' 0 1 (Some 99) None (frames hazard_ab far_candidate))) \<and>
   step town_env (projr (fst (init town_env 0 ''town.osm'' 0 1 (Some 99) None
      (frames hazard_ab far_candidate)))) = Inl KeyError"
  by (simp add: town_defs step_def collect_def record_agents_def)

text \<open>
  C3 as amended: the constructor does not check a supplied target. When the target is no
  node of the graph and no candidate passes the hazard filter, construction completes;
  and whenever construction completes with such a target, the first call of step fails
  with KeyError.
\<close>

theorem unknown_target_fails_in_step:
  assumes "graph_from_file env f = Some net" and "t \<notin> set (nodes_index net)"
  shows "(hazard_filter (intersects env) (geometry (st al)) (geometry (st hz)) = [] \<longrightarrow>
           \<not> isl (fst (init env r0 f hz al (Some t) sd st))) \<and>
         (\<forall>m. fst (init env r0 f hz al (Some t) sd st) = Inr m \<longrightarrow> step env m = Inl KeyError)"
proof (intro conjI impI allI)
  assume "hazard_filter (intersects env) (geometry (st al)) (geometry (st hz)) = []"
  then have "agents_in_hazard_zone env st hz al = []"
    by (simp add: agents_in_hazard_zone_def sjoin_empty_iff)
  then show "\<not> isl (fst (init env r0 f hz al (Some t) sd st))"
    using assms(1) by (simp add: fst_init populate_def choose_target_def)
next
  fix m
  assume "fst (init env r0 f hz al (Some t) sd st) = Inr m"
  with assms(1) have p: "populate env r0 net hz al (Some t) sd (agents_in_hazard_zone env st hz al) = Inr m"
    by (simp add: fst_init)
  from populate_grid_dom [OF p] assms(2) have "t \<notin> dom (grid m)" by simp
  then have "grid m (target_node m) = None"
    using populate_target [OF p] by (simp add: domIff)
  then show "step env m = Inl KeyError"
    by (simp add: step_def collect_def)
qed

text \<open>
  The theorem at a concrete input: target 0, which is no node of the town.
\<close>

theorem unknown_target_fails_in_step_witness:
  "graph_from_file town_env ''town.osm'' = Some town \<and> 0 \<notin> set (nodes_index town) \<and>
   hazard_filter (intersects town_env) (geometry (frames hazard_overlap far_candidate 1))
     (geometry (frames hazard_overlap far_candidate 0)) = [] \<and>
   (\<exists>m. fst (init town_env 5 ''town.osm'' 0 1 (Some 0) (Some 42) (frames hazard_overlap far_candidate)) = Inr m \<and>
        step town_env m = Inl KeyError)"
proof -
  have g: "graph_from_file town_env ''town.osm'' = Some town"
    by (simp add: town_env_def)
  have t: "0 \<notin> set (nodes_index town)"
    by (simp add: town_def nodes_index_def)
  have h: "hazard_filter (intersects town_env) (geometry (frames hazard_overlap far_candidate 1))
     (geometry (frames hazard_overlap far_candidate 0)) = []"
    by (simp add: town_defs)
  note u = unknown_target_fails_in_step [OF g t, where ?r0.0 = 5 and sd = "Some 42"
      and st = "frames hazard_overlap far_candidate" and al = 1 and hz = 0]
  from u h have "\<not> isl (fst (init town_env 5 ''town.osm'' 0 1 (Some 0) (Some 42) (frames hazard_overlap far_candidate)))"
    by blast
  then obtain m where m: "fst (init town_env 5 ''town.osm'' 0 1 (Some 0) (Some 42) (frames hazard_overlap far_candidate)) = Inr m"
    by (cases "fst (init town_env 5 ''town.osm'' 0 1 (Some 0) (Some 42) (frames hazard_overlap far_candidate))") auto
  with u have "step town_env m = Inl KeyError" by blast
  with m g t h show ?thesis by blast
qed

subsection \<open>C4: the coordinate reference systems\<close>

text \<open>
  Claim C4 says that the frames are brought to one CRS or checked to share one before the
  join, and that construction fails when that is impossible. Lines 59 and 60 overwrite the
  \<^verbatim>\<open>crs\<close> attribute and leave the coordinates alone. Counterexample: a hazard frame
  labelled EPSG:27700 and nodes in EPSG:4326; construction completes, the join has run
  on the unchanged coordinates, and the frame now carries the label of the nodes.
\<close>

theorem relabelled_hazard_is_joined:
  "crs hazard_bng \<noteq> nodes_crs town \<and>
   \<not> isl (fst (init town_env 0 ''town.osm'' 0 1 (Some 4) None (frames hazard_bng three_candidates))) \<and>
   map (\<lambda>a. (unique_id a, pos a))
     (agents (schedule (projr (fst (init town_env 0 ''town.osm'' 0 1 (Some 4) None
        (frames hazard_bng three_candidates)))))) = [(0, 1), (1, 2)] \<and>
   snd (init town_env 0 ''town.osm'' 0 1 (Some 4) None (frames hazard_bng three_candidates)) 0 =
     \<lparr>crs = ''epsg:4326'', geometry = [zone_ab]\<rparr>"
  by (simp add: town_defs)

text \<open>
  C4 as amended: before the join the constructor overwrites the CRS labels of the hazard
  and candidate frames with the CRS of the nodes, without a check and without changing a
  coordinate. The outcome of construction (the model or the exception) is the same for
  any two stores whose frames have the same geometries, whatever their CRS labels; so
  construction never fails because of a CRS.
\<close>

theorem crs_labels_do_not_matter:
  assumes "\<forall>r. geometry (st r) = geometry (st2 r)"
  shows "fst (init env r0 f hz al tg sd st) = fst (init env r0 f hz al tg sd st2) \<and>
         (\<forall>r. geometry (snd (init env r0 f hz al tg sd st) r) = geometry (st r)) \<and>
         (\<forall>net. graph_from_file env f = Some net \<longrightarrow>
            crs (snd (init env r0 f hz al tg sd st) hz) = nodes_crs net \<and>
            crs (snd (init env r0 f hz al tg sd st) al) = nodes_crs net)"
proof (cases "graph_from_file env f")
  case None
  then show ?thesis by (simp add: init_def)
next
  case (Some net)
  from assms have "agents_in_hazard_zone env st hz al = agents_in_hazard_zone env st2 hz al"
    by (simp add: agents_in_hazard_zone_def)
  with Some show ?thesis
    by (simp add: fst_init snd_init geometry_set_crs crs_set_crs)
qed

text \<open>
  The theorem at a concrete input: the same zone labelled EPSG:27700 and EPSG:4326.
\<close>

theorem crs_labels_do_not_matter_witness:
  "(\<forall>r. geometry (frames hazard_bng three_candidates r) = geometry (frames hazard_ab three_candidates r)) \<and>
   crs (frames hazard_bng three_candidates 0) \<noteq> crs (frames hazard_ab three_candidates 0) \<and>
   fst (init town_env 0 ''town.osm'' 0 1 (Some 4) None (frames hazard_bng three_candidates)) =
   fst (init town_env 0 ''town.osm'' 0 1 (Some 4) None (frames hazard_ab three_candidates)) \<and>
   crs (snd (init town_env 0 ''town.osm'' 0 1 (Some 4) None (frames hazard_bng three_candidates)) 0) =
     nodes_crs town"
proof -
  have a: "\<forall>r. geometry (frames hazard_bng three_candidates r) = geometry (frames hazard_ab three_candidates r)"
    by (simp add: frames_def hazard_bng_def hazard_ab_def)
  have b: "crs (frames hazard_bng three_candidates 0) \<noteq> crs (frames hazard_ab three_candidates 0)"
    by (simp add: frames_def hazard_bng_def hazard_ab_def)
  have g: "graph_from_file town_env ''town.osm'' = Some town"
    by (simp add: town_env_def)
  from crs_labels_do_not_matter [OF a, of town_env 0 "''town.osm''" 0 1 "Some 4" None] a b g
  show ?thesis by simp
qed

subsection \<open>C5: what a record holds\<close>

text \<open>
  Claim C5 says that step records first and activates afterwards, so that the record at
  step index \<open>t\<close> holds each agent's position after \<open>t - 1\<close> movements, the record at
  index 0 being the initial placement. The order is as claimed (definition \<open>step\<close>), and
  the index is the value of \<^verbatim>\<open>schedule.steps\<close>, which starts at 0; so the count is off
  by one. Counterexample: in the town the agents start on nodes 1 and 2, and after two
  steps the record at index 1 holds nodes 2 and 3, their positions after one movement,
  not the initial placement that \<open>t - 1 = 0\<close> movements give.
\<close>

theorem record_at_index_one_is_after_one_move:
  "\<not> isl (fst (init town_env 0 ''town.osm'' 0 1 (Some 4) None (frames hazard_ab three_candidates))) \<and>
   map (\<lambda>a. (unique_id a, pos a))
     (agents (schedule (projr (fst (init town_env 0 ''town.osm'' 0 1 (Some 4) None
        (frames hazard_ab three_candidates)))))) = [(0, 1), (1, 2)] \<and>
   \<not> isl (step_loop town_env 2 (projr (fst (init town_env 0 ''town.osm'' 0 1 (Some 4) None
        (frames hazard_ab three_candidates))))) \<and>
   map_of (agent_records (data_collector (projr (step_loop town_env 2
     (projr (fst (init town_env 0 ''town.osm'' 0 1 (Some 4) None
        (frames hazard_ab three_candidates)))))))) 1 = Some [(1, 0, 2), (1, 1, 3)]"
  by (simp add: town_defs town_run_defs eval_nat_numeral)

text \<open>
  C5 as amended: every call of step records the state first and activates the agents
  afterwards; on a freshly constructed model, with a shuffle that returns a permutation
  of the agent keys, after \<open>n\<close> completed steps the collector holds exactly the records
  for the step indices 0 to \<open>n - 1\<close>, and the record at index \<open>t\<close> holds for every agent
  its position after exactly \<open>t\<close> activations; the record at index 0 is the initial
  placement.
\<close>

theorem record_is_position_after_t_activations:
  assumes "fst (init env r0 f hz al tg sd st) = Inr m0"
    and "\<forall>r ks. mset (fst (random_shuffle env r ks)) = mset ks"
    and "step_loop env n m0 = Inr m"
  shows "agent_records (data_collector m) =
         map (\<lambda>t. (t, map (\<lambda>a. (t, unique_id a,
                                  pos ((advance env (G m0) (target_node m0) ^^ t) a)))
                           (agents (schedule m0))))
             [0..<n]"
  using assms by (rule fresh_loop_records)

text \<open>
  The theorem on the town, after two steps.
\<close>

theorem record_is_position_after_t_activations_witness:
  "\<exists>m0 m. fst (init town_env 0 ''town.osm'' 0 1 (Some 4) None (frames hazard_ab three_candidates)) = Inr m0 \<and>
       (\<forall>r ks. mset (fst (random_shuffle town_env r ks)) = mset ks) \<and>
       step_loop town_env 2 m0 = Inr m \<and>
       agent_records (data_collector m) = [(0, [(0, 0, 1), (0, 1, 2)]), (1, [(1, 0, 2), (1, 1, 3)])] \<and>
       agent_records (data_collector m) =
         map (\<lambda>t. (t, map (\<lambda>a. (t, unique_id a,
                                  pos ((advance town_env (G m0) (target_node m0) ^^ t) a)))
                           (agents (schedule m0))))
             [0..<2]"
proof -
  from town_ab_loop2 obtain m0 m where
    i: "fst (init town_env 0 ''town.osm'' 0 1 (Some 4) None (frames hazard_ab three_candidates)) = Inr m0"
    and l: "step_loop town_env 2 m0 = Inr m"
    and r: "agent_records (data_collector m) = [(0, [(0, 0, 1), (0, 1, 2)]), (1, [(1, 0, 2), (1, 1, 3)])]"
    by auto
  note t = record_is_position_after_t_activations [OF i town_shuffle_permutes l]
  from i town_shuffle_permutes l r t show ?thesis
    by (intro exI [of _ m0] exI [of _ m] conjI)
qed

subsection \<open>C6: run(steps)\<close>

text \<open>
  Claim C6 says that on a freshly constructed model \<^verbatim>\<open>run(steps)\<close> calls step exactly
  \<open>steps\<close> times and returns the series, with every agent under exactly \<open>steps\<close> step
  indices. Counterexample: construction accepts the target 99, which is no node of the
  town, and \<^verbatim>\<open>run(1)\<close> on the fresh model raises KeyError in its first step instead of
  returning.
\<close>

theorem run_fails_on_unknown_target:
  "\<not> isl (fst (init town_env 0 ''town.osm'' 0 1 (Some 99) None (frames hazard_ab far_candidate))) \<and>
   run town_env 1 (projr (fst (init town_env 0 ''town.osm'' 0 1 (Some 99) None
      (frames hazard_ab far_candidate)))) = Inl KeyError"
  by (simp add: town_defs town_run_defs)

text \<open>
  C6 as amended: on a freshly constructed model whose target is a node of the graph,
  with a shuffle that returns a permutation of the agent keys and an agent collaborator
  that keeps its contract, \<^verbatim>\<open>run(steps)\<close> for non-negative \<open>steps\<close> raises nothing, leaves
  \<^verbatim>\<open>schedule.steps\<close> at \<open>steps\<close>, and returns a series whose index is exactly the pairs
  of a step index below \<open>steps\<close> and an agent id, each once; so every agent appears under
  exactly \<open>steps\<close> step indices, each with a position.
\<close>

theorem run_returns_full_series:
  assumes "fst (init env r0 f hz al tg sd st) = Inr m0"
    and "0 \<le> n"
    and "target_node m0 \<in> set (nodes_index (G m0))"
    and "\<forall>r ks. mset (fst (random_shuffle env r ks)) = mset ks"
    and "list_all P (agents (schedule m0))"
    and "step_contract env (G m0) (target_node m0) P"
  shows "\<exists>df m. run env n m0 = Inr (df, m) \<and> steps (schedule m) = nat n \<and>
           map (\<lambda>(t, i, p). (t, i)) df =
             List.product [0..<nat n] (map unique_id (agents (schedule m0))) \<and>
           distinct (map unique_id (agents (schedule m0))) \<and>
           (\<forall>a\<in>set (agents (schedule m0)).
              card {t. \<exists>p. (t, unique_id a, p) \<in> set df} = nat n)"
proof -
  let ?ids = "map unique_id (agents (schedule m0))"
  from step_loop_ok [OF init_placed [OF assms(1)] assms(3,4,5,6)]
  obtain m where loop: "step_loop env (nat n) m0 = Inr m" by blast
  let ?df = "get_agent_vars_dataframe (data_collector m)"
  have run: "run env n m0 = Inr (?df, m)"
    using loop by (simp add: run_def)
  from init_Inr_fields(2,3) [OF assms(1)]
  have z: "steps (schedule m0) = 0" "agent_records (data_collector m0) = []"
    by simp_all
  note d = init_distinct_ids [OF assms(1)]
  from step_loop_trajectory [OF loop assms(4) d] z
  have st: "steps (schedule m) = nat n" by simp
  have idx: "map (\<lambda>(t, i, p). (t, i)) ?df = List.product [0..<nat n] ?ids"
    unfolding get_agent_vars_dataframe_def
      fresh_loop_records [OF assms(1,4) loop]
    by (rule series_index)
  have "card {t. \<exists>p. (t, unique_id a, p) \<in> set ?df} = nat n"
    if a: "a \<in> set (agents (schedule m0))" for a
  proof -
    have "{t. \<exists>p. (t, unique_id a, p) \<in> set ?df} =
          {t. (t, unique_id a) \<in> set (map (\<lambda>(t, i, p). (t, i)) ?df)}"
      by force
    also have "\<dots> = {0..<nat n}"
      unfolding idx using a by (intro product_indices) simp
    finally show ?thesis by simp
  qed
  with run st idx d show ?thesis by blast
qed

text \<open>
  The theorem on the town with the walking agents, for three steps.
\<close>

theorem run_returns_full_series_witness:
  "\<exists>m0 df m. fst (init town_env 0 ''town.osm'' 0 1 (Some 4) None (frames hazard_ab three_candidates)) = Inr m0 \<and>
       target_node m0 \<in> set (nodes_index (G m0)) \<and>
       list_all (\<lambda>a. set (nav a) \<subseteq> set (nodes_index town)) (agents (schedule m0)) \<and>
       run town_env 3 m0 = Inr (df, m) \<and> steps (schedule m) = 3 \<and>
       map (\<lambda>(t, i, p). (t, i)) df = [(0, 0), (0, 1), (1, 0), (1, 1), (2, 0), (2, 1)]"
proof -
  from town_ab_model obtain m0 where
    i: "fst (init town_env 0 ''town.osm'' 0 1 (Some 4) None (frames hazard_ab three_candidates)) = Inr m0"
    and a: "agents (schedule m0) = [\<lparr>unique_id = 0, pos = 1, nav = [2, 3, 4]\<rparr>,
                              \<lparr>unique_id = 1, pos = 2, nav = [3, 4]\<rparr>]"
    and g: "G m0 = town" and tg: "target_node m0 = 4"
    by auto
  have t: "target_node m0 \<in> set (nodes_index (G m0))"
    by (simp add: g tg town_def nodes_index_def)
  have P: "list_all (\<lambda>a. set (nav a) \<subseteq> set (nodes_index town)) (agents (schedule m0))"
    by (simp add: a town_def nodes_index_def)
  have c: "step_contract town_env (G m0) (target_node m0) (\<lambda>a. set (nav a) \<subseteq> set (nodes_index town))"
    using walker_contract by (simp add: g tg)
  have n: "(0::int) \<le> 3" by simp
  from run_returns_full_series [OF i n t town_shuffle_permutes P c] obtain df m where
    r: "run town_env 3 m0 = Inr (df, m)" and s: "steps (schedule m) = nat 3"
    and x: "map (\<lambda>(t, i, p). (t, i)) df = List.product [0..<nat 3] (map unique_id (agents (schedule m0)))"
    by auto
  from x have "map (\<lambda>(t, i, p). (t, i)) df = [(0, 0), (0, 1), (1, 0), (1, 1), (2, 0), (2, 1)]"
    by (simp add: a eval_nat_numeral upt_rec)
  with i t P r s show ?thesis
    by (intro exI [of _ m0] exI [of _ df] exI [of _ m] conjI) simp_all
qed

subsection \<open>C8: run(0)\<close>

text \<open>
  Claim C8: on a freshly constructed model, \<^verbatim>\<open>run(0)\<close> returns an empty time series and
  leaves the model as construction left it.
\<close>

theorem run_zero_fresh:
  assumes "fst (init env r0 f hz al tg sd st) = Inr m"
  shows "run env 0 m = Inr ([], m)"
  using init_Inr_fields(3) [OF assms]
  by (simp add: run_def get_agent_vars_dataframe_def)

text \<open>
  The theorem on the town with two agents.
\<close>

theorem run_zero_fresh_witness:
  "\<exists>m. fst (init town_env 0 ''town.osm'' 0 1 (Some 4) None (frames hazard_ab three_candidates)) = Inr m \<and>
       map (\<lambda>a. (unique_id a, pos a)) (agents (schedule m)) = [(0, 1), (1, 2)] \<and>
       run town_env 0 m = Inr ([], m)"
proof -
  from town_ab_init obtain m where
    m: "fst (init town_env 0 ''town.osm'' 0 1 (Some 4) None (frames hazard_ab three_candidates)) = Inr m"
    and a: "map (\<lambda>a. (unique_id a, pos a)) (agents (schedule m)) = [(0, 1), (1, 2)]"
    by auto
  from run_zero_fresh [OF m] m a show ?thesis
    by (intro exI [of _ m]) simp
qed

subsection \<open>C9: the caller's frames are mutated\<close>

text \<open>
  Claim C9: when the constructor returns, the \<^verbatim>\<open>crs\<close> attribute of the caller's hazard
  and candidate frames (the objects at the references passed in) is the CRS of the
  network nodes, whatever it was before.
\<close>

theorem init_overwrites_crs:
  assumes "fst (init env r0 f hz al tg sd st) = Inr m"
  shows "crs (snd (init env r0 f hz al tg sd st) hz) = nodes_crs (G m) \<and>
         crs (snd (init env r0 f hz al tg sd st) al) = nodes_crs (G m)"
  using init_Inr_fields(1) [OF assms]
  by (simp add: snd_init crs_set_crs)

text \<open>
  The theorem on a hazard frame that was labelled EPSG:27700.
\<close>

theorem init_overwrites_crs_witness:
  "\<exists>m. fst (init town_env 0 ''town.osm'' 0 1 (Some 4) None (frames hazard_bng three_candidates)) = Inr m \<and>
       crs (frames hazard_bng three_candidates 0) = ''epsg:27700'' \<and>
       nodes_crs (G m) = ''epsg:4326'' \<and>
       crs (snd (init town_env 0 ''town.osm'' 0 1 (Some 4) None (frames hazard_bng three_candidates)) 0) =
         nodes_crs (G m) \<and>
       crs (snd (init town_env 0 ''town.osm'' 0 1 (Some 4) None (frames hazard_bng three_candidates)) 1) =
         nodes_crs (G m)"
proof -
  from town_bng_init obtain m where
    m: "fst (init town_env 0 ''town.osm'' 0 1 (Some 4) None (frames hazard_bng three_candidates)) = Inr m"
    and c: "nodes_crs (G m) = ''epsg:4326''"
    by auto
  have "crs (frames hazard_bng three_candidates 0) = ''epsg:27700''"
    by (simp add: frames_def hazard_bng_def)
  with init_overwrites_crs [OF m] m c show ?thesis
    by (intro exI [of _ m]) simp
qed

subsection \<open>C10: run is additive\<close>

text \<open>
  Claim C10: for non-negative m and k, \<^verbatim>\<open>run(m)\<close> followed by \<^verbatim>\<open>run(k)\<close> on the
  resulting model gives what \<^verbatim>\<open>run(m + k)\<close> gives on the model before: the same time
  series and the same final model, or the same exception.
\<close>

theorem run_additive:
  assumes "0 \<le> a" and "0 \<le> b" and "run env a m = Inr (d, m')"
  shows "run env b m' = run env (a + b) m"
proof -
  from assms(3) have loop: "step_loop env (nat a) m = Inr m'"
    by (auto simp: run_def split: sum.splits)
  from assms(1,2) have "nat (a + b) = nat a + nat b"
    by (simp add: nat_add_distrib)
  then have "step_loop env (nat (a + b)) m = step_loop env (nat b) m'"
    using loop by (simp add: step_loop_add)
  then show ?thesis
    by (simp add: run_def)
qed

text \<open>
  The theorem on the town: one step, then two, against three at once.
\<close>

theorem run_additive_witness:
  "\<exists>m d m'. fst (init town_env 0 ''town.osm'' 0 1 (Some 4) None (frames hazard_ab three_candidates)) = Inr m \<and>
       run town_env 1 m = Inr (d, m') \<and> d = [(0, 0, 1), (0, 1, 2)] \<and>
       run town_env 2 m' = run town_env (1 + 2) m"
proof -
  from town_ab_run1 obtain m d m' where
    m: "fst (init town_env 0 ''town.osm'' 0 1 (Some 4) None (frames hazard_ab three_candidates)) = Inr m"
    and r: "run town_env 1 m = Inr (d, m')" and d: "d = [(0, 0, 1), (0, 1, 2)]"
    by blast
  have "run town_env 2 m' = run town_env (1 + 2) m"
    by (rule run_additive [OF _ _ r]) simp_all
  with m r d show ?thesis by blast
qed

section \<open>Further properties of the constructor and the steps\<close>

text \<open>
  The number of agents in general: construction creates one agent for every pair of a
  candidate location and a hazard polygon that intersect, and numbers the agents from 0
  in the order of the rows of the join.
\<close>

theorem agents_are_join_pairs:
  assumes "fst (init env r0 f hz al tg sd st) = Inr m"
  shows "length (agents (schedule m)) =
           (\<Sum>c\<leftarrow>geometry (st al). length (filter (intersects env c) (geometry (st hz)))) \<and>
         map unique_id (agents (schedule m)) = [0..<length (agents (schedule m))]"
proof -
  have "length (agents (schedule m)) = length (map unique_id (agents (schedule m)))"
    by simp
  also have "\<dots> = length (sjoin (intersects env) (geometry (st al)) (geometry (st hz)))"
    unfolding init_agent_ids [OF assms] by simp
  finally have "length (agents (schedule m)) =
      length (sjoin (intersects env) (geometry (st al)) (geometry (st hz)))" .
  with init_agent_ids [OF assms] show ?thesis
    by (simp add: sjoin_length)
qed

text \<open>
  On the town with the two overlapping zones: three agents.
\<close>

theorem agents_are_join_pairs_witness:
  "\<exists>m. fst (init town_env 0 ''town.osm'' 0 1 (Some 4) None (frames hazard_overlap three_candidates)) = Inr m \<and>
       length (agents (schedule m)) = 3 \<and>
       length (agents (schedule m)) =
         (\<Sum>c\<leftarrow>geometry (frames hazard_overlap three_candidates 1).
            length (filter (intersects town_env c) (geometry (frames hazard_overlap three_candidates 0)))) \<and>
       map unique_id (agents (schedule m)) = [0..<length (agents (schedule m))]"
proof -
  from town_overlap_init obtain m where
    i: "fst (init town_env 0 ''town.osm'' 0 1 (Some 4) None (frames hazard_overlap three_candidates)) = Inr m"
    and n: "length (agents (schedule m)) = 3"
    by auto
  note p = agents_are_join_pairs [OF i]
  from p have c: "length (agents (schedule m)) =
         (\<Sum>c\<leftarrow>geometry (frames hazard_overlap three_candidates 1).
            length (filter (intersects town_env c) (geometry (frames hazard_overlap three_candidates 0))))"
    by (rule conjunct1)
  from p have u: "map unique_id (agents (schedule m)) = [0..<length (agents (schedule m))]"
    by (rule conjunct2)
  from i n c u show ?thesis
    by (intro exI [of _ m] conjI)
qed

text \<open>
  When no candidate intersects more than one hazard polygon, the number of agents is the
  number of candidates that the hazard filter of the specification keeps.
\<close>

theorem disjoint_zones_agent_count:
  assumes "fst (init env r0 f hz al tg sd st) = Inr m"
    and "\<forall>c\<in>set (geometry (st al)). length (filter (intersects env c) (geometry (st hz))) \<le> 1"
  shows "length (agents (schedule m)) =
         length (hazard_filter (intersects env) (geometry (st al)) (geometry (st hz)))"
proof -
  have "length (agents (schedule m)) = length (map unique_id (agents (schedule m)))"
    by simp
  also have "\<dots> = length (sjoin (intersects env) (geometry (st al)) (geometry (st hz)))"
    unfolding init_agent_ids [OF assms(1)] by simp
  also have "\<dots> = length (hazard_filter (intersects env) (geometry (st al)) (geometry (st hz)))"
    by (rule sjoin_length_disjoint [OF assms(2)])
  finally show ?thesis .
qed

text \<open>
  On the town with the single zone around A and B: two agents.
\<close>

theorem disjoint_zones_agent_count_witness:
  "\<exists>m. fst (init town_env 0 ''town.osm'' 0 1 (Some 4) None (frames hazard_ab three_candidates)) = Inr m \<and>
       list_all (\<lambda>c. length (filter (intersects town_env c) (geometry (frames hazard_ab three_candidates 0))) \<le> 1)
         (geometry (frames hazard_ab three_candidates 1)) \<and>
       length (agents (schedule m)) =
         length (hazard_filter (intersects town_env) (geometry (frames hazard_ab three_candidates 1))
                   (geometry (frames hazard_ab three_candidates 0))) \<and>
       length (agents (schedule m)) = 2"
proof -
  from town_ab_model obtain m where
    i: "fst (init town_env 0 ''town.osm'' 0 1 (Some 4) None (frames hazard_ab three_candidates)) = Inr m"
    and a: "agents (schedule m) = [\<lparr>unique_id = 0, pos = 1, nav = [2, 3, 4]\<rparr>,
                              \<lparr>unique_id = 1, pos = 2, nav = [3, 4]\<rparr>]"
    by auto
  have d: "list_all (\<lambda>c. length (filter (intersects town_env c) (geometry (frames hazard_ab three_candidates 0))) \<le> 1)
         (geometry (frames hazard_ab three_candidates 1))"
    by (simp add: town_defs)
  then have "\<forall>c\<in>set (geometry (frames hazard_ab three_candidates 1)).
      length (filter (intersects town_env c) (geometry (frames hazard_ab three_candidates 0))) \<le> 1"
    by (simp only: list_all_iff)
  note c = disjoint_zones_agent_count [OF i this]
  have n: "length (agents (schedule m)) = 2"
    by (simp add: a)
  from i d c n show ?thesis
    by (intro exI [of _ m] conjI)
qed

text \<open>
  No dangling positions: after construction and after any number of completed steps every
  agent stands on a node of the graph, and the graph and the target are those of the
  constructed model.
\<close>

theorem positions_are_graph_nodes:
  assumes "fst (init env r0 f hz al tg sd st) = Inr m0"
    and "step_loop env n m0 = Inr m"
  shows "G m = G m0 \<and> target_node m = target_node m0 \<and>
         (\<forall>a\<in>set (agents (schedule m)). pos a \<in> set (nodes_index (G m)))"
  using step_loop_placed [OF assms(2) init_placed [OF assms(1)]] placed_positions [of m]
  by simp

text \<open>
  On the town, after two steps.
\<close>

theorem positions_are_graph_nodes_witness:
  "\<exists>m0 m. fst (init town_env 0 ''town.osm'' 0 1 (Some 4) None (frames hazard_ab three_candidates)) = Inr m0 \<and>
       step_loop town_env 2 m0 = Inr m \<and> G m = G m0 \<and> target_node m = target_node m0 \<and>
       list_all (\<lambda>a. pos a \<in> set (nodes_index (G m))) (agents (schedule m))"
proof -
  from town_ab_loop2 obtain m0 m where
    i: "fst (init town_env 0 ''town.osm'' 0 1 (Some 4) None (frames hazard_ab three_candidates)) = Inr m0"
    and l: "step_loop town_env 2 m0 = Inr m"
    by auto
  note p = positions_are_graph_nodes [OF i l]
  from p have g: "G m = G m0" by (rule conjunct1)
  from p have t: "target_node m = target_node m0" by (rule conjunct1 [OF conjunct2])
  from p have "\<forall>a\<in>set (agents (schedule m)). pos a \<in> set (nodes_index (G m))"
    by (rule conjunct2 [OF conjunct2])
  then have a: "list_all (\<lambda>a. pos a \<in> set (nodes_index (G m))) (agents (schedule m))"
    by (simp only: list_all_iff)
  from i l g t a show ?thesis
    by (intro exI [of _ m0] exI [of _ m] conjI)
qed

text \<open>
  The argument \<^verbatim>\<open>seed\<close> is stored in \<^verbatim>\<open>self._seed\<close> and read nowhere: constructing with
  another seed and the same random source gives the same model up to that field and the
  same store, and the series that run returns does not depend on the field.
\<close>

theorem seed_is_only_stored:
  "fst (init env r0 f hz al tg sd st) =
     map_sum id (\<lambda>m :: ('r, 'v) model. m\<lparr>seed := sd\<rparr>) (fst (init env r0 f hz al tg sd' st)) \<and>
   snd (init env r0 f hz al tg sd st) = snd (init env r0 f hz al tg sd' st) \<and>
   run env n (m\<lparr>seed := s\<rparr>) = map_sum id (\<lambda>(df, m' :: ('r, 'v) model). (df, m'\<lparr>seed := s\<rparr>)) (run env n m)"
proof -
  have "snd (init env r0 f hz al tg sd st) = snd (init env r0 f hz al tg sd' st)"
    by (cases "graph_from_file env f") (simp_all add: init_def Let_def)
  moreover have "run env n (m\<lparr>seed := s\<rparr>) =
      map_sum id (\<lambda>(df, m' :: ('r, 'v) model). (df, m'\<lparr>seed := s\<rparr>)) (run env n m)"
    by (simp add: run_def step_loop_seed split: sum.splits)
  ultimately show ?thesis
    using init_seed [of env r0 f hz al tg sd st sd'] by simp
qed

end
